theory Spec2Isabelle
  imports Main "HOL-Library.AList"
begin

section \<open>FP-Growth: the frequent-pattern tree and the recursive search of fpgrowth.py\<close>

text \<open>
  The Python program keeps its tree as objects that point at each other: a node holds its
  parent, a dictionary of children and a link to the next node of the same item; the tree
  holds the root and the dictionary \<open>hyperlinks\<close> from an item to the first and the last
  node of that item's linked list. Objects are mutated in place and shared, so the model
  has an explicit store: the nodes of one tree are the cells of a list, a reference is an
  index into it, and creating a node appends a cell. Every tree has its own store, as
  every \<open>FPNode\<close> belongs to the one tree it is created for.

  Python dictionaries keep their keys in insertion order and \<open>fp_search\<close> iterates over
  one, so dictionaries are association lists, written with \<open>map_of\<close> and \<open>AList.update\<close>
  (which replaces the value of a present key in place and appends an absent key).
  A key is a value of \<open>node.item\<close>: an integer, or \<open>None\<close> for the root.

  An exception is a value \<open>Inl e\<close>. A loop that follows pointers (\<open>while node: ...\<close>) need not
  end on a store with a cycle, so these loops are partial functions into \<open>option\<close>, where
  \<open>None\<close> says that the call does not return. A generator is modelled by the list of the
  values it yields, computed before its consumer runs.
\<close>

type_synonym item = int
type_synonym ref = nat

datatype error = TypeError | UnboundLocalError | IndexError | AttributeError

record FPNode =
  item :: "item option"
  support :: "int option"
  parent :: "ref option"
  children :: "(item option \<times> ref) list"
  link :: "ref option"

record FPTree =
  store :: "FPNode list"
  root :: ref
  hyperlinks :: "(item option \<times> ref \<times> ref) list"

subsection \<open>Running a step that may raise or may not return\<close>

definition bindE :: "(error + 'a) option \<Rightarrow> ('a \<Rightarrow> (error + 'b) option) \<Rightarrow> (error + 'b) option" where
  "bindE m f = Option.bind m (\<lambda>r. case r of Inl e \<Rightarrow> Some (Inl e) | Inr x \<Rightarrow> f x)"

subsection \<open>FPNode\<close>

text \<open>\<open>FPNode.__init__(tree, item, support)\<close>: no parent, no children, no link.\<close>

definition FPNode_init :: "item option \<Rightarrow> int option \<Rightarrow> FPNode" where
  "FPNode_init i s = \<lparr>item = i, support = s, parent = None, children = [], link = None\<rparr>"

text \<open>\<open>self.add(child)\<close>: only when no child has that item yet.\<close>

definition add :: "FPNode list \<Rightarrow> ref \<Rightarrow> ref \<Rightarrow> FPNode list" where
  "add st self child =
     (if map_of (children (st ! self)) (item (st ! child)) = None
      then (let st1 = st[self := (st ! self)
                         \<lparr>children := AList.update (item (st ! child)) child (children (st ! self))\<rparr>]
            in st1[child := (st1 ! child)\<lparr>parent := Some self\<rparr>])
      else st)"

definition search :: "FPNode list \<Rightarrow> ref \<Rightarrow> item option \<Rightarrow> ref option" where
  "search st self k = map_of (children (st ! self)) k"

text \<open>\<open>self.support += 1\<close> raises TypeError when the support is \<open>None\<close>.\<close>

definition increment_node_support :: "FPNode list \<Rightarrow> ref \<Rightarrow> error + FPNode list" where
  "increment_node_support st self =
     (case support (st ! self) of
        None \<Rightarrow> Inl TypeError
      | Some s \<Rightarrow> Inr (st[self := (st ! self)\<lparr>support := Some (s + 1)\<rparr>]))"

text \<open>The property \<open>FPNode.root\<close>.\<close>

definition FPNode_root :: "FPNode \<Rightarrow> bool" where
  "FPNode_root n = (item n = None \<and> support n = None)"

subsection \<open>FPTree\<close>

definition FPTree_init :: FPTree where
  "FPTree_init = \<lparr>store = [FPNode_init None None], root = 0, hyperlinks = []\<rparr>"

definition update_route :: "FPTree \<Rightarrow> ref \<Rightarrow> FPTree" where
  "update_route t point =
     (let k = item (store t ! point) in
      case map_of (hyperlinks t) k of
        Some route \<Rightarrow>
          t\<lparr>store := (store t)[snd route := (store t ! snd route)\<lparr>link := Some point\<rparr>],
            hyperlinks := AList.update k (fst route, point) (hyperlinks t)\<rparr>
      | None \<Rightarrow> t\<lparr>hyperlinks := AList.update k (point, point) (hyperlinks t)\<rparr>)"

text \<open>
  The three statements that \<open>add_transaction\<close> and \<open>project\<close> both run for an absent child:
  \<open>n = FPNode(tree, item, support); point.add(n); tree.update_route(n)\<close>. The new node is
  the next cell of the store.
\<close>

definition new_child :: "FPTree \<Rightarrow> ref \<Rightarrow> item option \<Rightarrow> int option \<Rightarrow> FPTree" where
  "new_child t point k s =
     (let next_point = length (store t);
          t1 = t\<lparr>store := store t @ [FPNode_init k s]\<rparr>;
          t2 = t1\<lparr>store := add (store t1) point next_point\<rparr>
      in update_route t2 next_point)"

fun add_transaction_from :: "FPTree \<Rightarrow> ref \<Rightarrow> item list \<Rightarrow> error + FPTree" where
  "add_transaction_from t point [] = Inr t"
| "add_transaction_from t point (i # itemset) =
     (case search (store t) point (Some i) of
        Some next_point \<Rightarrow>
          (case increment_node_support (store t) next_point of
             Inl e \<Rightarrow> Inl e
           | Inr st \<Rightarrow> add_transaction_from (t\<lparr>store := st\<rparr>) next_point itemset)
      | None \<Rightarrow>
          add_transaction_from (new_child t point (Some i) (Some 1)) (length (store t)) itemset)"

definition add_transaction :: "FPTree \<Rightarrow> item list \<Rightarrow> error + FPTree" where
  "add_transaction t itemset = add_transaction_from t (root t) itemset"

text \<open>\<open>while node: yield node; node = node.link\<close>.\<close>

partial_function (option) follow_links :: "FPNode list \<Rightarrow> ref option \<Rightarrow> ref list option" where
  "follow_links st node =
     (case node of
        None \<Rightarrow> Some []
      | Some r \<Rightarrow> Option.bind (follow_links st (link (st ! r))) (\<lambda>rs. Some (r # rs)))"

text \<open>
  \<open>nodes(item)\<close>: when the item is no key of \<open>hyperlinks\<close>, the variable \<open>node\<close> is read
  before it was ever assigned, which raises UnboundLocalError.
\<close>

definition nodes :: "FPTree \<Rightarrow> item option \<Rightarrow> (error + ref list) option" where
  "nodes t k =
     (case map_of (hyperlinks t) k of
        None \<Rightarrow> Some (Inl UnboundLocalError)
      | Some route \<Rightarrow> map_option Inr (follow_links (store t) (Some (fst route))))"

text \<open>\<open>items()\<close> pairs every key of \<open>hyperlinks\<close>, in the dictionary's order, with its nodes.\<close>

definition items :: "FPTree \<Rightarrow> item option list" where
  "items t = map fst (hyperlinks t)"

text \<open>
  \<open>while not node.root and node: path = [node] + path; node = node.parent\<close>. The test reads
  \<open>node.root\<close> first, so a parent that is \<open>None\<close> raises AttributeError.
\<close>

partial_function (option) climb :: "FPNode list \<Rightarrow> ref option \<Rightarrow> ref list \<Rightarrow> (error + ref list) option" where
  "climb st node path =
     (case node of
        None \<Rightarrow> Some (Inl AttributeError)
      | Some r \<Rightarrow>
          if FPNode_root (st ! r) then Some (Inr path)
          else climb st (parent (st ! r)) (r # path))"

fun climb_each :: "FPNode list \<Rightarrow> ref list \<Rightarrow> (error + ref list list) option" where
  "climb_each st [] = Some (Inr [])"
| "climb_each st (node # ns) =
     bindE (climb st (Some node) []) (\<lambda>path.
     bindE (climb_each st ns) (\<lambda>paths. Some (Inr (path # paths))))"

definition prefix_paths :: "FPTree \<Rightarrow> item option \<Rightarrow> (error + ref list list) option" where
  "prefix_paths t k = bindE (nodes t k) (\<lambda>ns. climb_each (store t) ns)"

subsection \<open>project\<close>

text \<open>
  The variable \<open>seed\<close> starts as \<open>False\<close> and then holds an item. Python's \<open>bool\<close> is false
  for \<open>False\<close>, \<open>None\<close> and \<open>0\<close>; \<open>==\<close> and dictionary lookup identify \<open>False\<close> with \<open>0\<close>.
\<close>

datatype seed_val = PyFalse | Seed "item option"

fun py_bool :: "seed_val \<Rightarrow> bool" where
  "py_bool PyFalse = False"
| "py_bool (Seed None) = False"
| "py_bool (Seed (Some n)) = (n \<noteq> 0)"

fun py_eq :: "item option \<Rightarrow> seed_val \<Rightarrow> bool" where
  "py_eq k PyFalse = (k = Some 0)"
| "py_eq k (Seed k') = (k = k')"

fun seed_key :: "seed_val \<Rightarrow> item option" where
  "seed_key PyFalse = Some 0"
| "seed_key (Seed k) = k"

text \<open>
  The paths handed to \<open>project\<close> are lists of nodes of another tree; \<open>src\<close> is that tree's
  store, which \<open>project\<close> only reads (\<open>node.item\<close>, \<open>node.support\<close>). The set \<open>itemset\<close> of
  the source is written and never read, and is left out.
\<close>

fun project_path :: "FPNode list \<Rightarrow> seed_val \<Rightarrow> FPTree \<Rightarrow> ref \<Rightarrow> ref list \<Rightarrow> FPTree" where
  "project_path src seed new_tree current_node [] = new_tree"
| "project_path src seed new_tree current_node (node # path) =
     (case search (store new_tree) current_node (item (src ! node)) of
        None \<Rightarrow>
          (let supp = (if py_eq (item (src ! node)) seed then support (src ! node) else Some 0)
           in project_path src seed (new_child new_tree current_node (item (src ! node)) supp)
                (length (store new_tree)) path)
      | Some next_current_node \<Rightarrow> project_path src seed new_tree next_current_node path)"

fun project_paths :: "FPNode list \<Rightarrow> seed_val \<Rightarrow> FPTree \<Rightarrow> ref list list \<Rightarrow> error + seed_val \<times> FPTree" where
  "project_paths src seed new_tree [] = Inr (seed, new_tree)"
| "project_paths src seed new_tree (path # paths) =
     (if \<not> py_bool seed then
        (if path = [] then Inl IndexError
         else (let seed' = Seed (item (src ! last path))
               in project_paths src seed' (project_path src seed' new_tree (root new_tree) path) paths))
      else project_paths src seed (project_path src seed new_tree (root new_tree) path) paths)"

text \<open>\<open>for node in path[:-1][::-1]: node.support += support\<close>.\<close>

fun propagate :: "FPNode list \<Rightarrow> int option \<Rightarrow> ref list \<Rightarrow> error + FPNode list" where
  "propagate st s [] = Inr st"
| "propagate st s (node # rest) =
     (case support (st ! node) of
        None \<Rightarrow> Inl TypeError
      | Some a \<Rightarrow>
          (case s of
             None \<Rightarrow> Inl TypeError
           | Some b \<Rightarrow> propagate (st[node := (st ! node)\<lparr>support := Some (a + b)\<rparr>]) s rest))"

fun propagate_all :: "FPNode list \<Rightarrow> ref list list \<Rightarrow> error + FPNode list" where
  "propagate_all st [] = Inr st"
| "propagate_all st (path # paths) =
     (if path = [] then Inl IndexError
      else (case propagate st (support (st ! last path)) (rev (butlast path)) of
              Inl e \<Rightarrow> Inl e
            | Inr st' \<Rightarrow> propagate_all st' paths))"

definition project :: "FPNode list \<Rightarrow> ref list list \<Rightarrow> (error + FPTree) option" where
  "project src paths =
     (case project_paths src PyFalse FPTree_init paths of
        Inl e \<Rightarrow> Some (Inl e)
      | Inr (seed, new_tree) \<Rightarrow>
          bindE (prefix_paths new_tree (seed_key seed)) (\<lambda>ps.
            case propagate_all (store new_tree) ps of
              Inl e \<Rightarrow> Some (Inl e)
            | Inr st \<Rightarrow> Some (Inr (new_tree\<lparr>store := st\<rparr>))))"

subsection \<open>fp_search\<close>

text \<open>\<open>sum(n.support for n in nodes)\<close>: adding \<open>None\<close> raises TypeError.\<close>

fun sum_support :: "FPNode list \<Rightarrow> ref list \<Rightarrow> error + int" where
  "sum_support st [] = Inr 0"
| "sum_support st (n # ns) =
     (case support (st ! n) of
        None \<Rightarrow> Inl TypeError
      | Some s \<Rightarrow> (case sum_support st ns of Inl e \<Rightarrow> Inl e | Inr rest \<Rightarrow> Inr (s + rest)))"

text \<open>
  The generator \<open>fp_search\<close>, as the list of the pairs it yields. The loop
  \<open>for item, nodes in tree.items()\<close> runs over the keys still to visit, \<open>todo\<close>; the
  default \<open>suffix=None\<close> is the empty list.
\<close>

partial_function (option) fp_search_loop ::
  "FPTree \<Rightarrow> item option list \<Rightarrow> int \<Rightarrow> item option list \<Rightarrow> (error + (item option list \<times> int) list) option" where
  "fp_search_loop tree todo epsilon suffix =
     (case todo of
        [] \<Rightarrow> Some (Inr [])
      | k # todo' \<Rightarrow>
          (case nodes tree k of
             None \<Rightarrow> None
           | Some (Inl e) \<Rightarrow> Some (Inl e)
           | Some (Inr ns) \<Rightarrow>
               (case sum_support (store tree) ns of
                  Inl e \<Rightarrow> Some (Inl e)
                | Inr tree_support \<Rightarrow>
                    if tree_support \<ge> epsilon \<and> k \<notin> set suffix then
                      (case bindE (prefix_paths tree k) (project (store tree)) of
                         None \<Rightarrow> None
                       | Some (Inl e) \<Rightarrow> Some (Inl e)
                       | Some (Inr proj_tree) \<Rightarrow>
                           Option.bind (fp_search_loop proj_tree (items proj_tree) epsilon (k # suffix))
                             (\<lambda>sub. case sub of
                                Inl e \<Rightarrow> Some (Inl e)
                              | Inr found \<Rightarrow>
                                  Option.bind (fp_search_loop tree todo' epsilon suffix)
                                    (\<lambda>more. case more of
                                       Inl e \<Rightarrow> Some (Inl e)
                                     | Inr others \<Rightarrow>
                                         Some (Inr ((k # suffix, tree_support) # found @ others)))))
                    else fp_search_loop tree todo' epsilon suffix)))"

definition fp_search :: "FPTree \<Rightarrow> int \<Rightarrow> item option list \<Rightarrow> (error + (item option list \<times> int) list) option" where
  "fp_search tree epsilon suffix = fp_search_loop tree (items tree) epsilon suffix"

text \<open>The tree of the main program: every transaction added to a new tree, in order.\<close>

fun add_transactions :: "FPTree \<Rightarrow> item list list \<Rightarrow> error + FPTree" where
  "add_transactions t [] = Inr t"
| "add_transactions t (transaction # ts) =
     (case add_transaction t transaction of
        Inl e \<Rightarrow> Inl e
      | Inr t' \<Rightarrow> add_transactions t' ts)"

definition START_TREE :: "item list list \<Rightarrow> error + FPTree" where
  "START_TREE TRANSACTIONS = add_transactions FPTree_init TRANSACTIONS"

declare follow_links.simps [code] climb.simps [code] fp_search_loop.simps [code]

section \<open>Well-formed trees\<close>

text \<open>
  What every tree built by the program satisfies. These definitions are used in proofs only.
\<close>

fun chain :: "FPNode list \<Rightarrow> ref list \<Rightarrow> bool" where
  "chain st [] = True"
| "chain st [r] = (link (st ! r) = None)"
| "chain st (r # r' # rs) = (link (st ! r) = Some r' \<and> chain st (r' # rs))"

definition occ :: "FPNode list \<Rightarrow> item option \<Rightarrow> ref list" where
  "occ st k = filter (\<lambda>r. item (st ! r) = k) [1..<length st]"

definition route_of :: "ref list \<Rightarrow> (ref \<times> ref) option" where
  "route_of rs = (if rs = [] then None else Some (hd rs, last rs))"

definition linked :: "FPTree \<Rightarrow> bool" where
  "linked t = (\<forall>k. map_of (hyperlinks t) k = route_of (occ (store t) k) \<and> chain (store t) (occ (store t) k))"

definition wf_root :: "FPTree \<Rightarrow> bool" where
  "wf_root t = (root t = 0 \<and> store t \<noteq> [] \<and> FPNode_root (store t ! 0))"

definition wf_parent :: "FPNode list \<Rightarrow> bool" where
  "wf_parent st = (\<forall>r. 0 < r \<and> r < length st \<longrightarrow>
      (\<exists>p. parent (st ! r) = Some p \<and> p < r \<and> map_of (children (st ! p)) (item (st ! r)) = Some r))"

definition wf_children :: "FPNode list \<Rightarrow> bool" where
  "wf_children st = (\<forall>p k c. p < length st \<and> map_of (children (st ! p)) k = Some c \<longrightarrow>
      p < c \<and> c < length st \<and> item (st ! c) = k \<and> parent (st ! c) = Some p)"

definition wf_keys :: "FPNode list \<Rightarrow> bool" where
  "wf_keys st = (\<forall>p < length st. distinct (map fst (children (st ! p))))"

definition wf_tree :: "FPTree \<Rightarrow> bool" where
  "wf_tree t = (wf_root t \<and> wf_parent (store t) \<and> wf_children (store t) \<and> wf_keys (store t) \<and> linked t)"

definition new_node :: "item option \<Rightarrow> int option \<Rightarrow> ref \<Rightarrow> FPNode" where
  "new_node k s p = \<lparr>item = k, support = s, parent = Some p, children = [], link = None\<rparr>"

function path_to :: "FPNode list \<Rightarrow> ref \<Rightarrow> ref list" where
  "path_to st r =
     (if FPNode_root (st ! r) then []
      else (case parent (st ! r) of
              Some p \<Rightarrow> (if p < r then path_to st p else [])
            | None \<Rightarrow> []) @ [r])"
  by pat_completeness auto
termination
  by (relation "measure snd") auto

declare path_to.simps [simp del]

inductive reachable :: "FPTree \<Rightarrow> bool" where
  init: "reachable FPTree_init"
| add: "reachable t \<Longrightarrow> add_transaction t itemset = Inr t' \<Longrightarrow> reachable t'"
| proj: "project src paths = Some (Inr t') \<Longrightarrow> reachable t'"

inductive in_tree :: "FPTree \<Rightarrow> ref \<Rightarrow> bool" for t where
  root: "in_tree t (root t)"
| child: "in_tree t p \<Longrightarrow> search (store t) p k = Some c \<Longrightarrow> in_tree t c"

definition sval :: "FPNode list \<Rightarrow> ref \<Rightarrow> int" where
  "sval st r = (case support (st ! r) of None \<Rightarrow> 0 | Some s \<Rightarrow> s)"

definition tot :: "FPNode list \<Rightarrow> item option \<Rightarrow> int" where
  "tot st k = sum_list (map (sval st) (occ st k))"

definition positive :: "FPNode list \<Rightarrow> bool" where
  "positive st = (\<forall>r. 0 < r \<and> r < length st \<longrightarrow> (\<exists>s. support (st ! r) = Some s \<and> 0 < s))"

fun walk :: "FPNode list \<Rightarrow> ref \<Rightarrow> item list \<Rightarrow> ref list option" where
  "walk st p [] = Some []"
| "walk st p (i # itemset) =
     (case search st p (Some i) of
        None \<Rightarrow> None
      | Some c \<Rightarrow> map_option ((#) c) (walk st c itemset))"

text \<open>
  What \<open>add_transaction_from\<close> has done when it returns \<open>t'\<close>, started in \<open>t\<close> at \<open>p\<close>:
  \<open>cs\<close> are the nodes it went through.
\<close>

definition inserted :: "FPTree \<Rightarrow> ref \<Rightarrow> item list \<Rightarrow> FPTree \<Rightarrow> ref list \<Rightarrow> bool" where
  "inserted t p itemset t' cs =
     (walk (store t') p itemset = Some cs \<and> sorted_wrt (<) (p # cs) \<and>
      length (store t) \<le> length (store t') \<and> root t' = root t \<and>
      (\<forall>r < length (store t).
          item (store t' ! r) = item (store t ! r) \<and> parent (store t' ! r) = parent (store t ! r) \<and>
          support (store t' ! r) =
            (if r \<in> set cs then map_option (\<lambda>s. s + 1) (support (store t ! r)) else support (store t ! r))) \<and>
      (\<forall>r. length (store t) \<le> r \<and> r < length (store t') \<longrightarrow>
          r \<in> set cs \<and> support (store t' ! r) = Some 1) \<and>
      (\<forall>k. occ (store t') k =
          occ (store t) k @ filter (\<lambda>r. length (store t) \<le> r \<and> item (store t' ! r) = k) cs))"

text \<open>
  In the trees that the search meets, every node other than the root has an item and a
  support.
\<close>

definition has_values :: "FPNode list \<Rightarrow> bool" where
  "has_values st = (\<forall>r. 0 < r \<and> r < length st \<longrightarrow> support (st ! r) \<noteq> None \<and> item (st ! r) \<noteq> None)"

definition good :: "FPTree \<Rightarrow> bool" where
  "good t = (wf_tree t \<and> has_values (store t))"

text \<open>
  The recursive calls of \<open>fp_search\<close>. In \<open>fp_search(tree, epsilon, suffix)\<close>, the loop
  reaches the line \<open>fp_search(proj_tree, epsilon, freq_items)\<close> for a key \<open>k\<close> of
  \<open>hyperlinks\<close> whose nodes have a total support of at least \<open>epsilon\<close> and that is not in
  the suffix; \<open>proj_tree\<close> is \<open>project(tree.prefix_paths(k))\<close> and the new suffix is
  \<open>[k] + suffix\<close>. The calls met while searching the tree of \<open>TRANSACTIONS\<close> are the first
  one, on that tree with the empty suffix, and the recursive calls of calls met.
\<close>

definition recursive_call :: "int \<Rightarrow> FPTree \<Rightarrow> item option list \<Rightarrow> FPTree \<Rightarrow> item option list \<Rightarrow> bool" where
  "recursive_call epsilon tree suffix proj_tree suffix' =
     (\<exists>k ns tree_support.
        k \<in> set (items tree) \<and> nodes tree k = Some (Inr ns) \<and>
        sum_support (store tree) ns = Inr tree_support \<and>
        tree_support \<ge> epsilon \<and> k \<notin> set suffix \<and>
        bindE (prefix_paths tree k) (project (store tree)) = Some (Inr proj_tree) \<and>
        suffix' = k # suffix)"

inductive searched :: "item list list \<Rightarrow> int \<Rightarrow> FPTree \<Rightarrow> item option list \<Rightarrow> bool"
  for TRANSACTIONS epsilon where
  top: "START_TREE TRANSACTIONS = Inr tree \<Longrightarrow> searched TRANSACTIONS epsilon tree []"
| rec: "searched TRANSACTIONS epsilon tree suffix \<Longrightarrow>
        recursive_call epsilon tree suffix proj_tree suffix' \<Longrightarrow>
        searched TRANSACTIONS epsilon proj_tree suffix'"

section \<open>Invariants of the tree operations\<close>

lemma wf_parentD:
  "wf_parent st \<Longrightarrow> 0 < r \<Longrightarrow> r < length st \<Longrightarrow>
   \<exists>p. parent (st ! r) = Some p \<and> p < r \<and> map_of (children (st ! p)) (item (st ! r)) = Some r"
  unfolding wf_parent_def by blast

lemma wf_childrenD:
  "wf_children st \<Longrightarrow> p < length st \<Longrightarrow> map_of (children (st ! p)) k = Some c \<Longrightarrow>
   p < c \<and> c < length st \<and> item (st ! c) = k \<and> parent (st ! c) = Some p"
  unfolding wf_children_def by blast

lemma wf_keysD: "wf_keys st \<Longrightarrow> p < length st \<Longrightarrow> distinct (map fst (children (st ! p)))"
  unfolding wf_keys_def by blast

lemma wf_treeD:
  assumes "wf_tree t"
  shows "wf_root t" "wf_parent (store t)" "wf_children (store t)" "wf_keys (store t)" "linked t"
  using assms by (simp_all add: wf_tree_def)

lemma chain_follow: "chain st rs \<Longrightarrow> rs \<noteq> [] \<Longrightarrow> follow_links st (Some (hd rs)) = Some rs"
proof (induction st rs rule: chain.induct)
  case (1 st) then show ?case by simp
next
  case (2 st r)
  then show ?case by (subst follow_links.simps) (simp add: follow_links.simps)
next
  case (3 st r r' rs)
  then show ?case by (subst follow_links.simps) simp
qed

lemma chain_cong: "chain st rs \<Longrightarrow> (\<And>r. r \<in> set rs \<Longrightarrow> link (st' ! r) = link (st ! r)) \<Longrightarrow> chain st' rs"
  by (induction st rs rule: chain.induct) auto

lemma chain_snoc:
  "chain st rs \<Longrightarrow> rs \<noteq> [] \<Longrightarrow> distinct rs \<Longrightarrow> n \<notin> set rs \<Longrightarrow>
   (\<And>r. r \<in> set rs \<Longrightarrow> r \<noteq> last rs \<Longrightarrow> link (st' ! r) = link (st ! r)) \<Longrightarrow>
   link (st' ! last rs) = Some n \<Longrightarrow> link (st' ! n) = None \<Longrightarrow> chain st' (rs @ [n])"
proof (induction st rs rule: chain.induct)
  case (1 st) then show ?case by simp
next
  case (2 st r) then show ?case by simp
next
  case (3 st r r' rs)
  have ne: "r \<noteq> last (r' # rs)"
    using "3.prems"(3) last_in_set[of "r' # rs"] by auto
  have "link (st' ! r) = link (st ! r)"
    using "3.prems"(5)[of r] ne by simp
  moreover have "chain st' ((r' # rs) @ [n])"
    using "3.prems" "3.IH" by auto
  ultimately show ?case using "3.prems"(1) by simp
qed

lemma occ_distinct: "distinct (occ st k)" by (simp add: occ_def)
lemma occ_set: "set (occ st k) = {r. 0 < r \<and> r < length st \<and> item (st ! r) = k}" by (auto simp: occ_def)

lemma nodes_linked:
  assumes "linked t"
  shows "nodes t k = (if occ (store t) k = [] then Some (Inl UnboundLocalError) else Some (Inr (occ (store t) k)))"
  using assms chain_follow[of "store t" "occ (store t) k"]
  by (auto simp: linked_def nodes_def route_of_def split: option.splits)

lemma new_child_explicit:
  assumes "p < length (store t)" "map_of (children (store t ! p)) k = None"
  shows "new_child t p k s =
    (let st = store t; n = length st;
         st1 = st[p := (st ! p)\<lparr>children := AList.update k n (children (st ! p))\<rparr>] @ [new_node k s p]
     in case map_of (hyperlinks t) k of
          None \<Rightarrow> t\<lparr>store := st1, hyperlinks := AList.update k (n, n) (hyperlinks t)\<rparr>
        | Some route \<Rightarrow> t\<lparr>store := st1[snd route := (st1 ! snd route)\<lparr>link := Some n\<rparr>],
                          hyperlinks := AList.update k (fst route, n) (hyperlinks t)\<rparr>)"
  using assms
  by (simp add: new_child_def add_def update_route_def Let_def nth_append FPNode_init_def
      new_node_def list_update_append split: option.splits)

lemma linked_tail_valid:
  assumes "linked t" "map_of (hyperlinks t) k = Some route"
  shows "occ (store t) k \<noteq> []" "fst route = hd (occ (store t) k)" "snd route = last (occ (store t) k)"
    "snd route < length (store t)" "0 < snd route" "item (store t ! snd route) = k"
proof -
  from assms have r: "route_of (occ (store t) k) = Some route" by (simp add: linked_def)
  then show ne: "occ (store t) k \<noteq> []" by (auto simp: route_of_def)
  from r show "fst route = hd (occ (store t) k)" "snd route = last (occ (store t) k)"
    by (auto simp: route_of_def split: if_splits)
  then have "snd route \<in> set (occ (store t) k)" using ne by simp
  then show "snd route < length (store t)" "0 < snd route" "item (store t ! snd route) = k"
    by (auto simp: occ_set)
qed

lemma new_child_fields:
  fixes t :: FPTree and s :: "int option"
  assumes "linked t" "p < length (store t)" "map_of (children (store t ! p)) k = None"
  defines "t' \<equiv> new_child t p k s" and "n \<equiv> length (store t)"
  shows "length (store t') = Suc n"
    and "root t' = root t"
    and "store t' ! n = new_node k s p"
    and "\<And>r. r < n \<Longrightarrow> item (store t' ! r) = item (store t ! r)"
    and "\<And>r. r < n \<Longrightarrow> support (store t' ! r) = support (store t ! r)"
    and "\<And>r. r < n \<Longrightarrow> parent (store t' ! r) = parent (store t ! r)"
    and "\<And>r. r < n \<Longrightarrow> children (store t' ! r) =
           (if r = p then AList.update k n (children (store t ! p)) else children (store t ! r))"
    and "\<And>r. r < n \<Longrightarrow> link (store t' ! r) =
           (if occ (store t) k \<noteq> [] \<and> r = last (occ (store t) k) then Some n else link (store t ! r))"
    and "hyperlinks t' = AList.update k (if occ (store t) k = [] then n else hd (occ (store t) k), n) (hyperlinks t)"
proof -
  note ex = new_child_explicit[OF assms(2,3), of s, folded t'_def]
  show "length (store t') = Suc n" "root t' = root t"
    by (auto simp: ex Let_def n_def split: option.splits)
  show "store t' ! n = new_node k s p"
  proof (cases "map_of (hyperlinks t) k")
    case None
    then show ?thesis by (auto simp: ex Let_def n_def nth_append)
  next
    case (Some route)
    note v = linked_tail_valid[OF assms(1) Some]
    show ?thesis using Some v
      by (auto simp: ex Let_def n_def nth_append nth_list_update)
  qed
  show "item (store t' ! r) = item (store t ! r)" if "r < n" for r
    using that assms(2) by (auto simp: ex Let_def n_def nth_append nth_list_update split: option.splits)
  show "support (store t' ! r) = support (store t ! r)" if "r < n" for r
    using that assms(2) by (auto simp: ex Let_def n_def nth_append nth_list_update split: option.splits)
  show "parent (store t' ! r) = parent (store t ! r)" if "r < n" for r
    using that assms(2) by (auto simp: ex Let_def n_def nth_append nth_list_update split: option.splits)
  show "children (store t' ! r) =
           (if r = p then AList.update k n (children (store t ! p)) else children (store t ! r))" if "r < n" for r
    using that assms(2) by (auto simp: ex Let_def n_def nth_append nth_list_update split: option.splits)
  show "link (store t' ! r) =
           (if occ (store t) k \<noteq> [] \<and> r = last (occ (store t) k) then Some n else link (store t ! r))" if "r < n" for r
  proof (cases "map_of (hyperlinks t) k")
    case None
    then have "occ (store t) k = []" using assms(1) by (auto simp: linked_def route_of_def split: if_splits)
    then show ?thesis using that None assms(2)
      by (auto simp: ex Let_def n_def nth_append nth_list_update)
  next
    case (Some route)
    note v = linked_tail_valid[OF assms(1) Some]
    show ?thesis using that Some v assms(2)
      by (auto simp: ex Let_def n_def nth_append nth_list_update)
  qed
  show "hyperlinks t' = AList.update k (if occ (store t) k = [] then n else hd (occ (store t) k), n) (hyperlinks t)"
  proof (cases "map_of (hyperlinks t) k")
    case None
    then have "occ (store t) k = []" using assms(1) by (auto simp: linked_def route_of_def split: if_splits)
    then show ?thesis using None by (auto simp: ex Let_def n_def)
  next
    case (Some route)
    note v = linked_tail_valid[OF assms(1) Some]
    show ?thesis using Some v by (auto simp: ex Let_def n_def)
  qed
qed

lemma occ_new_child:
  fixes t :: FPTree and s :: "int option"
  assumes "linked t" "p < length (store t)" "map_of (children (store t ! p)) k = None"
  shows "occ (store (new_child t p k s)) k' =
           (if k' = k then occ (store t) k @ [length (store t)] else occ (store t) k')"
proof -
  note f = new_child_fields[OF assms, where s=s]
  have n0: "Suc 0 \<le> length (store t)" using assms(2) by linarith
  have "filter (\<lambda>r. item (store (new_child t p k s) ! r) = k') [1..<length (store t)] =
        filter (\<lambda>r. item (store t ! r) = k') [1..<length (store t)]"
    by (rule filter_cong) (auto simp: f(4))
  moreover have "[1..<Suc (length (store t))] = [1..<length (store t)] @ [length (store t)]"
    by (rule upt_Suc_append) (use assms(2) in linarith)
  ultimately show ?thesis
    by (auto simp: occ_def f(1) f(3) new_node_def)
qed

lemma wf_new_child:
  fixes t :: FPTree and s :: "int option"
  assumes w: "wf_tree t" and p: "p < length (store t)" and c: "map_of (children (store t ! p)) k = None"
  shows "wf_tree (new_child t p k s)"
proof -
  from w have l: "linked t" by (simp add: wf_tree_def)
  note f = new_child_fields[OF l p c, where s=s]
  note o = occ_new_child[OF l p c, where s=s]
  let ?t = "new_child t p k s" and ?n = "length (store t)"
  have n0: "0 < ?n" using p by linarith
  have "length (store ?t) \<noteq> 0" by (simp add: f(1))
  then have "store ?t \<noteq> []" by fastforce
  then have r: "wf_root ?t"
    using w f(4)[OF n0] f(5)[OF n0] by (simp add: wf_tree_def wf_root_def f(2) FPNode_root_def)
  have ch: "map_of (children (store ?t ! q)) = 
      (if q = p then (map_of (children (store t ! p)))(k \<mapsto> ?n) else 
       if q = ?n then Map.empty else map_of (children (store t ! q)))" if "q \<le> ?n" for q
  proof (cases "q = ?n")
    case True
    then have "q \<noteq> p" using p by simp
    then show ?thesis using True by (simp add: f(3) new_node_def)
  next
    case False
    with that have "q < ?n" by simp
    then show ?thesis using False by (simp add: f(7) update_conv')
  qed
  have pa: "wf_parent (store ?t)"
    unfolding wf_parent_def
  proof (intro allI impI)
    fix r assume r: "0 < r \<and> r < length (store ?t)"
    show "\<exists>q. parent (store ?t ! r) = Some q \<and> q < r \<and> map_of (children (store ?t ! q)) (item (store ?t ! r)) = Some r"
    proof (cases "r = ?n")
      case True
      then show ?thesis using p by (auto simp: f new_node_def update_conv')
    next
      case False
      with r have rn: "r < ?n" by (simp add: f)
      with wf_parentD[OF wf_treeD(2)[OF w], of r] r obtain q where q: "parent (store t ! r) = Some q" "q < r" "map_of (children (store t ! q)) (item (store t ! r)) = Some r"
        by blast
      then show ?thesis using rn c by (auto simp: f(4,6) ch)
    qed
  qed
  have cw: "wf_children (store ?t)"
    unfolding wf_children_def
  proof (intro allI impI)
    fix q k' c' assume a: "q < length (store ?t) \<and> map_of (children (store ?t ! q)) k' = Some c'"
    then have qn: "q \<le> ?n" by (simp add: f)
    show "q < c' \<and> c' < length (store ?t) \<and> item (store ?t ! c') = k' \<and> parent (store ?t ! c') = Some q"
    proof (cases "q = p \<and> k' = k")
      case True
      then show ?thesis using a p by (auto simp: f new_node_def update_conv')
    next
      case False
      have qn': "q \<noteq> ?n"
      proof
        assume "q = ?n"
        then have "map_of (children (store ?t ! q)) = Map.empty" using ch[of q] p by simp
        with a show False by simp
      qed
      have "map_of (children (store ?t ! q)) k' = map_of (children (store t ! q)) k'"
        using False qn' by (simp add: ch[OF qn])
      with a qn qn' have old: "q < ?n" "map_of (children (store t ! q)) k' = Some c'"
        by simp_all
      with wf_childrenD[OF wf_treeD(3)[OF w], of q k' c'] have "q < c'" "c' < ?n" "item (store t ! c') = k'" "parent (store t ! c') = Some q"
        by simp_all
      then show ?thesis by (auto simp: f)
    qed
  qed
  have ke: "wf_keys (store ?t)"
    unfolding wf_keys_def
  proof (intro allI impI)
    fix q assume "q < length (store ?t)"
    then have "q < ?n \<or> q = ?n" by (auto simp: f)
    then show "distinct (map fst (children (store ?t ! q)))"
      using wf_keysD[OF wf_treeD(4)[OF w], of q] wf_keysD[OF wf_treeD(4)[OF w] p]
      by (auto simp: f new_node_def distinct_update)
  qed
  have li: "linked ?t"
    unfolding linked_def
  proof (intro allI conjI)
    fix k'
    have "map_of (hyperlinks t) k' = route_of (occ (store t) k')"
      using l by (simp add: linked_def)
    then show "map_of (hyperlinks ?t) k' = route_of (occ (store ?t) k')"
      by (simp add: f(9) o update_conv' route_of_def hd_append)
    show "chain (store ?t) (occ (store ?t) k')"
    proof (cases "k' = k")
      case False
      have "chain (store t) (occ (store t) k')" using l by (simp add: linked_def)
      then have "chain (store ?t) (occ (store t) k')"
      proof (rule chain_cong)
        fix r assume "r \<in> set (occ (store t) k')"
        then have rn: "r < ?n" "item (store t ! r) = k'" by (auto simp: occ_set)
        have "occ (store t) k \<noteq> [] \<Longrightarrow> last (occ (store t) k) \<in> set (occ (store t) k)" by simp
        then have "occ (store t) k \<noteq> [] \<Longrightarrow> r \<noteq> last (occ (store t) k)"
          using rn False by (auto simp: occ_set)
        then show "link (store ?t ! r) = link (store t ! r)" using rn by (auto simp: f)
      qed
      then show ?thesis using False by (simp add: o)
    next
      case True
      show ?thesis
      proof (cases "occ (store t) k = []")
        case e: True
        then show ?thesis using True by (simp add: o f new_node_def)
      next
        case ne: False
        have "chain (store ?t) (occ (store t) k @ [?n])"
        proof (rule chain_snoc[where st="store t"])
          show "chain (store t) (occ (store t) k)" using l by (simp add: linked_def)
          show "occ (store t) k \<noteq> []" by (rule ne)
          show "distinct (occ (store t) k)" by (rule occ_distinct)
          show "?n \<notin> set (occ (store t) k)" by (simp add: occ_set)
          show "link (store ?t ! r) = link (store t ! r)"
            if "r \<in> set (occ (store t) k)" "r \<noteq> last (occ (store t) k)" for r
            using that by (auto simp: f occ_set)
          have "last (occ (store t) k) \<in> set (occ (store t) k)" using ne by simp
          then have "last (occ (store t) k) < ?n" by (simp add: occ_set)
          then show "link (store ?t ! last (occ (store t) k)) = Some ?n" using ne by (simp add: f)
          show "link (store ?t ! ?n) = None" by (simp add: f new_node_def)
        qed
        then show ?thesis using True by (simp add: o)
      qed
    qed
  qed
  from r pa cw ke li show ?thesis by (simp add: wf_tree_def)
qed

lemma occ_cong:
  assumes "length st' = length st" "\<And>r. r < length st \<Longrightarrow> item (st' ! r) = item (st ! r)"
  shows "occ st' k = occ st k"
  unfolding occ_def assms(1) by (rule filter_cong) (auto simp: assms(2))

lemma wf_shape_cong:
  assumes w: "wf_tree t"
    and len: "length st' = length (store t)"
    and it: "\<And>r. r < length (store t) \<Longrightarrow> item (st' ! r) = item (store t ! r)"
    and pa: "\<And>r. r < length (store t) \<Longrightarrow> parent (st' ! r) = parent (store t ! r)"
    and ch: "\<And>r. r < length (store t) \<Longrightarrow> children (st' ! r) = children (store t ! r)"
    and li: "\<And>r. r < length (store t) \<Longrightarrow> link (st' ! r) = link (store t ! r)"
    and ro: "support (st' ! 0) = None"
  shows "wf_tree (t\<lparr>store := st'\<rparr>)"
proof -
  note d = wf_treeD[OF w]
  have n0: "0 < length (store t)" using d(1) by (simp add: wf_root_def)
  have "wf_root (t\<lparr>store := st'\<rparr>)"
    using d(1) len it[OF n0] ro n0 by (auto simp: wf_root_def FPNode_root_def)
  moreover have "wf_parent st'"
    unfolding wf_parent_def
  proof (intro allI impI)
    fix r assume r: "0 < r \<and> r < length st'"
    with wf_parentD[OF d(2), of r] len obtain p where
      "parent (store t ! r) = Some p" "p < r" "map_of (children (store t ! p)) (item (store t ! r)) = Some r"
      by auto
    then show "\<exists>p. parent (st' ! r) = Some p \<and> p < r \<and> map_of (children (st' ! p)) (item (st' ! r)) = Some r"
      using r len by (simp add: it pa ch)
  qed
  moreover have "wf_children st'"
    unfolding wf_children_def
  proof (intro allI impI)
    fix p k c assume a: "p < length st' \<and> map_of (children (st' ! p)) k = Some c"
    then have p: "p < length (store t)" using len by simp
    with a have "p < length (store t)" "map_of (children (store t ! p)) k = Some c"
      by (simp_all add: ch[OF p])
    from wf_childrenD[OF d(3) this]
    show "p < c \<and> c < length st' \<and> item (st' ! c) = k \<and> parent (st' ! c) = Some p"
      using len by (simp add: it pa)
  qed
  moreover have "wf_keys st'"
    unfolding wf_keys_def using wf_keysD[OF d(4)] len by (simp add: ch)
  moreover have "linked (t\<lparr>store := st'\<rparr>)"
    unfolding linked_def
  proof (intro allI conjI)
    fix k
    have o: "occ st' k = occ (store t) k" by (rule occ_cong[OF len it])
    from d(5) have l: "map_of (hyperlinks t) k = route_of (occ (store t) k)" "chain (store t) (occ (store t) k)"
      by (simp_all add: linked_def)
    show "map_of (hyperlinks (t\<lparr>store := st'\<rparr>)) k = route_of (occ (store (t\<lparr>store := st'\<rparr>)) k)"
      using l(1) by (simp add: o)
    have "chain st' (occ (store t) k)"
      by (rule chain_cong[OF l(2)]) (simp add: occ_set li)
    then show "chain (store (t\<lparr>store := st'\<rparr>)) (occ (store (t\<lparr>store := st'\<rparr>)) k)"
      by (simp add: o)
  qed
  ultimately show ?thesis by (simp add: wf_tree_def)
qed

lemma nth_support_update [simp]:
  "item (st[r := (st ! r)\<lparr>support := x\<rparr>] ! q) = item (st ! q)"
  "parent (st[r := (st ! r)\<lparr>support := x\<rparr>] ! q) = parent (st ! q)"
  "children (st[r := (st ! r)\<lparr>support := x\<rparr>] ! q) = children (st ! q)"
  "link (st[r := (st ! r)\<lparr>support := x\<rparr>] ! q) = link (st ! q)"
  by (cases "r < length st"; simp add: nth_list_update list_update_beyond)+

lemma wf_support_update:
  assumes "wf_tree t" "r \<noteq> 0"
  shows "wf_tree (t\<lparr>store := (store t)[r := (store t ! r)\<lparr>support := x\<rparr>]\<rparr>)"
proof (rule wf_shape_cong[OF assms(1)])
  have "FPNode_root (store t ! 0)" "0 < length (store t)"
    using wf_treeD(1)[OF assms(1)] by (simp_all add: wf_root_def)
  then show "support ((store t)[r := (store t ! r)\<lparr>support := x\<rparr>] ! 0) = None"
    using assms(2) by (simp add: FPNode_root_def)
qed simp_all

lemma wf_add_transaction_from:
  "wf_tree t \<Longrightarrow> point < length (store t) \<Longrightarrow> add_transaction_from t point itemset = Inr t' \<Longrightarrow> wf_tree t'"
proof (induction itemset arbitrary: t point)
  case Nil
  then show ?case by simp
next
  case (Cons i itemset)
  show ?case
  proof (cases "search (store t) point (Some i)")
    case None
    then have c: "map_of (children (store t ! point)) (Some i) = None" by (simp add: search_def)
    have "wf_tree (new_child t point (Some i) (Some 1))" by (rule wf_new_child[OF Cons.prems(1,2) c])
    moreover have "length (store t) < length (store (new_child t point (Some i) (Some 1)))"
      by (simp add: new_child_fields(1)[OF wf_treeD(5)[OF Cons.prems(1)] Cons.prems(2) c])
    ultimately show ?thesis using Cons.IH Cons.prems(3) None by simp
  next
    case (Some c)
    then have "map_of (children (store t ! point)) (Some i) = Some c" by (simp add: search_def)
    from wf_childrenD[OF wf_treeD(3)[OF Cons.prems(1)] Cons.prems(2) this]
    have c: "point < c" "c < length (store t)" by simp_all
    then have "c \<noteq> 0" by simp
    from Cons.prems(3) Some obtain x where x: "support (store t ! c) = Some x"
      "add_transaction_from (t\<lparr>store := (store t)[c := (store t ! c)\<lparr>support := Some (x + 1)\<rparr>]\<rparr>) c itemset = Inr t'"
      by (auto simp: increment_node_support_def split: option.splits)
    show ?thesis
      by (rule Cons.IH[OF wf_support_update[OF Cons.prems(1) \<open>c \<noteq> 0\<close>] _ x(2)]) (simp add: c)
  qed
qed

lemma wf_init: "wf_tree FPTree_init"
proof -
  have "occ (store FPTree_init) k = []" for k by (simp add: occ_def FPTree_init_def)
  then show ?thesis
    by (auto simp add: wf_tree_def wf_root_def wf_parent_def wf_children_def wf_keys_def linked_def
        route_of_def FPTree_init_def FPNode_init_def FPNode_root_def)
qed

lemma climb_path_to:
  assumes "wf_tree t"
  shows "r < length (store t) \<Longrightarrow> climb (store t) (Some r) acc = Some (Inr (path_to (store t) r @ acc))"
proof (induction r arbitrary: acc rule: less_induct)
  case (less r)
  show ?case
  proof (cases "FPNode_root (store t ! r)")
    case True
    then show ?thesis
      by (subst climb.simps, subst path_to.simps) simp
  next
    case False
    have "FPNode_root (store t ! 0)" using wf_treeD(1)[OF assms] by (simp add: wf_root_def)
    with False have "0 < r" by (cases r) auto
    from wf_parentD[OF wf_treeD(2)[OF assms] this less.prems]
    obtain p where p: "parent (store t ! r) = Some p" "p < r" by blast
    then have "climb (store t) (Some p) (r # acc) = Some (Inr (path_to (store t) p @ r # acc))"
      using less.IH[of p "r # acc"] less.prems by simp
    then show ?thesis using False p
      by (subst climb.simps, subst path_to.simps) simp
  qed
qed

lemma path_to_elems:
  "e \<in> set (path_to st r) \<Longrightarrow> \<not> FPNode_root (st ! e) \<and> e \<le> r"
proof (induction st r rule: path_to.induct)
  case (1 st r)
  show ?case
  proof (cases "FPNode_root (st ! r)")
    case True
    with "1.prems" show ?thesis by (subst (asm) path_to.simps) simp
  next
    case nr: False
    show ?thesis
    proof (cases "parent (st ! r)")
      case None
      with "1.prems" nr show ?thesis by (subst (asm) path_to.simps) simp
    next
      case (Some p)
      show ?thesis
      proof (cases "p < r")
        case True
        from "1.prems" nr Some True have "e \<in> set (path_to st p) \<or> e = r"
          by (subst (asm) path_to.simps) auto
        then show ?thesis using "1.IH"[OF nr Some True] nr True by auto
      next
        case False
        with "1.prems" nr Some show ?thesis by (subst (asm) path_to.simps) simp
      qed
    qed
  qed
qed

lemma climb_each_path_to:
  assumes "wf_tree t"
  shows "(\<And>r. r \<in> set rs \<Longrightarrow> r < length (store t)) \<Longrightarrow>
         climb_each (store t) rs = Some (Inr (map (path_to (store t)) rs))"
proof (induction rs)
  case Nil
  then show ?case by simp
next
  case (Cons r rs)
  then show ?case
    using climb_path_to[OF assms, of r "[]"] by (simp add: bindE_def)
qed

lemma prefix_paths_wf:
  assumes "wf_tree t"
  shows "prefix_paths t k =
           (if occ (store t) k = [] then Some (Inl UnboundLocalError)
            else Some (Inr (map (path_to (store t)) (occ (store t) k))))"
proof -
  have "climb_each (store t) (occ (store t) k) = Some (Inr (map (path_to (store t)) (occ (store t) k)))"
    by (rule climb_each_path_to[OF assms]) (simp add: occ_set)
  then show ?thesis
    by (simp add: prefix_paths_def nodes_linked[OF wf_treeD(5)[OF assms]] bindE_def)
qed

lemma wf_project_path:
  "wf_tree nt \<Longrightarrow> cur < length (store nt) \<Longrightarrow> wf_tree (project_path src seed nt cur path)"
proof (induction path arbitrary: nt cur)
  case Nil
  then show ?case by simp
next
  case (Cons node path)
  show ?case
  proof (cases "search (store nt) cur (item (src ! node))")
    case None
    then have c: "map_of (children (store nt ! cur)) (item (src ! node)) = None" by (simp add: search_def)
    let ?s = "if py_eq (item (src ! node)) seed then support (src ! node) else Some 0"
    have "wf_tree (new_child nt cur (item (src ! node)) ?s)" by (rule wf_new_child[OF Cons.prems c])
    moreover have "length (store nt) < length (store (new_child nt cur (item (src ! node)) ?s))"
      by (simp add: new_child_fields(1)[OF wf_treeD(5)[OF Cons.prems(1)] Cons.prems(2) c])
    ultimately show ?thesis using Cons.IH None by (simp add: Let_def)
  next
    case (Some c)
    then have "map_of (children (store nt ! cur)) (item (src ! node)) = Some c" by (simp add: search_def)
    from wf_childrenD[OF wf_treeD(3)[OF Cons.prems(1)] Cons.prems(2) this]
    have "c < length (store nt)" by simp
    then show ?thesis using Cons.IH[OF Cons.prems(1)] Some by simp
  qed
qed

lemma wf_root_length: "wf_tree t \<Longrightarrow> root t < length (store t)"
  using wf_treeD(1)[of t] by (simp add: wf_root_def)

lemma wf_project_paths:
  "wf_tree nt \<Longrightarrow> project_paths src seed nt paths = Inr (seed', nt') \<Longrightarrow> wf_tree nt'"
proof (induction paths arbitrary: nt seed)
  case Nil
  then show ?case by simp
next
  case (Cons path paths)
  have w: "wf_tree (project_path src s nt (root nt) path)" for s
    by (rule wf_project_path[OF Cons.prems(1) wf_root_length[OF Cons.prems(1)]])
  show ?case
  proof (cases "py_bool seed")
    case True
    then show ?thesis using Cons.IH[OF w] Cons.prems(2) by simp
  next
    case False
    then show ?thesis using Cons.IH[OF w] Cons.prems(2) by (simp add: Let_def split: if_splits)
  qed
qed

lemma propagate_shape:
  "propagate st s ns = Inr st' \<Longrightarrow>
   length st' = length st \<and>
   (\<forall>q. item (st' ! q) = item (st ! q) \<and> parent (st' ! q) = parent (st ! q) \<and>
        children (st' ! q) = children (st ! q) \<and> link (st' ! q) = link (st ! q)) \<and>
   (\<forall>q. q \<notin> set ns \<longrightarrow> support (st' ! q) = support (st ! q))"
proof (induction ns arbitrary: st)
  case Nil
  then show ?case by simp
next
  case (Cons n ns)
  from Cons.prems obtain a b where ab: "support (st ! n) = Some a" "s = Some b"
    "propagate (st[n := (st ! n)\<lparr>support := Some (a + b)\<rparr>]) s ns = Inr st'"
    by (auto split: option.splits)
  from Cons.IH[OF ab(3)] show ?case
    by (auto simp: nth_list_update)
qed

lemma propagate_all_shape:
  "propagate_all st paths = Inr st' \<Longrightarrow>
   length st' = length st \<and>
   (\<forall>q. item (st' ! q) = item (st ! q) \<and> parent (st' ! q) = parent (st ! q) \<and>
        children (st' ! q) = children (st ! q) \<and> link (st' ! q) = link (st ! q)) \<and>
   (\<forall>q. q \<notin> \<Union>(set ` set paths) \<longrightarrow> support (st' ! q) = support (st ! q))"
proof (induction paths arbitrary: st)
  case Nil
  then show ?case by simp
next
  case (Cons path paths)
  from Cons.prems obtain st1 where s1: "path \<noteq> []"
    "propagate st (support (st ! last path)) (rev (butlast path)) = Inr st1"
    "propagate_all st1 paths = Inr st'"
    by (auto split: if_splits sum.splits)
  have "set (butlast path) \<subseteq> set path" by (auto dest: in_set_butlastD)
  with propagate_shape[OF s1(2)] Cons.IH[OF s1(3)] show ?case
    by auto
qed

lemma wf_propagate_paths:
  assumes w: "wf_tree nt"
    and p: "propagate_all (store nt) (map (path_to (store nt)) rs) = Inr st"
  shows "wf_tree (nt\<lparr>store := st\<rparr>)"
proof -
  note sh = propagate_all_shape[OF p]
  have r0: "FPNode_root (store nt ! 0)" using wf_treeD(1)[OF w] by (simp add: wf_root_def)
  have "0 \<notin> \<Union>(set ` set (map (path_to (store nt)) rs))"
    using path_to_elems[of 0 "store nt"] r0 by auto
  with sh have "support (st ! 0) = support (store nt ! 0)" by blast
  then have s0: "support (st ! 0) = None" using r0 by (simp add: FPNode_root_def)
  show ?thesis
    by (rule wf_shape_cong[OF w]) (use sh s0 in simp_all)
qed

lemma bindE_simps [simp]:
  "bindE None f = None"
  "bindE (Some (Inl e)) f = Some (Inl e)"
  "bindE (Some (Inr x)) f = f x"
  by (simp_all add: bindE_def)

lemma project_cases:
  assumes "project src paths = Some (Inr t')"
  obtains seed nt rs where
    "project_paths src PyFalse FPTree_init paths = Inr (seed, nt)"
    "wf_tree nt"
    "rs = occ (store nt) (seed_key seed)" "rs \<noteq> []"
    "propagate_all (store nt) (map (path_to (store nt)) rs) = Inr (store t')"
    "t' = nt\<lparr>store := store t'\<rparr>"
proof (cases "project_paths src PyFalse FPTree_init paths")
  case (Inl e)
  with assms show ?thesis by (simp add: project_def)
next
  case (Inr sn)
  obtain seed nt where sn: "sn = (seed, nt)" by (cases sn)
  note pp = Inr[unfolded sn]
  have w: "wf_tree nt" by (rule wf_project_paths[OF wf_init pp])
  let ?rs = "occ (store nt) (seed_key seed)"
  from assms pp have e: "bindE (prefix_paths nt (seed_key seed)) (\<lambda>ps.
            case propagate_all (store nt) ps of
              Inl e \<Rightarrow> Some (Inl e)
            | Inr st \<Rightarrow> Some (Inr (nt\<lparr>store := st\<rparr>))) = Some (Inr t')"
    by (simp add: project_def)
  have ne: "?rs \<noteq> []"
  proof
    assume "?rs = []"
    with e show False by (simp add: prefix_paths_wf[OF w])
  qed
  with e have e2: "(case propagate_all (store nt) (map (path_to (store nt)) ?rs) of
              Inl e \<Rightarrow> Some (Inl e)
            | Inr st \<Rightarrow> Some (Inr (nt\<lparr>store := st\<rparr>))) = Some (Inr t')"
    by (simp add: prefix_paths_wf[OF w])
  show ?thesis
  proof (cases "propagate_all (store nt) (map (path_to (store nt)) ?rs)")
    case (Inl e)
    with e2 show ?thesis by simp
  next
    case st: (Inr st)
    with e2 have t': "t' = nt\<lparr>store := st\<rparr>" by simp
    then have "store t' = st" by simp
    with st t' pp w ne show ?thesis using that[of seed nt ?rs] by simp
  qed
qed

lemma wf_project: "project src paths = Some (Inr t') \<Longrightarrow> wf_tree t'"
proof (erule project_cases)
  fix seed nt rs
  assume a: "wf_tree nt" "propagate_all (store nt) (map (path_to (store nt)) rs) = Inr (store t')"
    "t' = nt\<lparr>store := store t'\<rparr>"
  from wf_propagate_paths[OF a(1,2)] a(3) show "wf_tree t'" by simp
qed

lemma wf_add_transaction: "wf_tree t \<Longrightarrow> add_transaction t itemset = Inr t' \<Longrightarrow> wf_tree t'"
  unfolding add_transaction_def
  by (rule wf_add_transaction_from[OF _ wf_root_length])

lemma wf_reachable: "reachable t \<Longrightarrow> wf_tree t"
  by (induction rule: reachable.induct) (auto intro: wf_init wf_add_transaction wf_project)

lemma in_tree_wf:
  assumes "wf_tree t"
  shows "in_tree t r \<longleftrightarrow> r < length (store t)"
proof
  show "in_tree t r \<Longrightarrow> r < length (store t)"
  proof (induction rule: in_tree.induct)
    case root
    then show ?case by (rule wf_root_length[OF assms])
  next
    case (child p k c)
    then show ?case using wf_childrenD[OF wf_treeD(3)[OF assms], of p k c] by (simp add: search_def)
  qed
  show "r < length (store t) \<Longrightarrow> in_tree t r"
  proof (induction r rule: less_induct)
    case (less r)
    show ?case
    proof (cases "r = 0")
      case True
      then show ?thesis using in_tree.root[of t] wf_treeD(1)[OF assms] by (simp add: wf_root_def)
    next
      case False
      then have "0 < r" by simp
      from wf_parentD[OF wf_treeD(2)[OF assms] this less.prems]
      obtain p where p: "parent (store t ! r) = Some p" "p < r"
        "map_of (children (store t ! p)) (item (store t ! r)) = Some r" by blast
      then have "in_tree t p" using less by simp
      then show ?thesis using p(3) by (auto intro: in_tree.child simp: search_def)
    qed
  qed
qed

lemma positiveD: "positive st \<Longrightarrow> 0 < r \<Longrightarrow> r < length st \<Longrightarrow> \<exists>s. support (st ! r) = Some s \<and> 0 < s"
  unfolding positive_def by blast

lemma sum_list_bump:
  fixes f g :: "nat \<Rightarrow> int"
  shows "distinct rs \<Longrightarrow> (\<And>r. r \<in> set rs \<Longrightarrow> r \<noteq> c \<Longrightarrow> g r = f r) \<Longrightarrow> g c = f c + d \<Longrightarrow>
   sum_list (map g rs) = sum_list (map f rs) + (if c \<in> set rs then d else 0)"
  by (induction rs) auto

lemma tot_increment:
  assumes c: "0 < c" "c < length st" and s: "support (st ! c) = Some x"
  shows "tot (st[c := (st ! c)\<lparr>support := Some (x + 1)\<rparr>]) k = tot st k + (if item (st ! c) = k then 1 else 0)"
proof -
  let ?st = "st[c := (st ! c)\<lparr>support := Some (x + 1)\<rparr>]"
  have o: "occ ?st k = occ st k" by (rule occ_cong) simp_all
  have "sum_list (map (sval ?st) (occ st k)) = sum_list (map (sval st) (occ st k)) + (if c \<in> set (occ st k) then 1 else 0)"
    by (rule sum_list_bump[OF occ_distinct]) (use c s in \<open>simp_all add: sval_def nth_list_update\<close>)
  then show ?thesis using c by (simp add: tot_def o occ_set)
qed

lemma positive_increment:
  assumes "positive st" "support (st ! c) = Some x" "0 < c"
  shows "positive (st[c := (st ! c)\<lparr>support := Some (x + 1)\<rparr>])"
  unfolding positive_def
proof (intro allI impI)
  fix r assume r: "0 < r \<and> r < length (st[c := (st ! c)\<lparr>support := Some (x + 1)\<rparr>])"
  show "\<exists>s. support (st[c := (st ! c)\<lparr>support := Some (x + 1)\<rparr>] ! r) = Some s \<and> 0 < s"
  proof (cases "r = c")
    case True
    with positiveD[OF assms(1), of c] assms(2) r show ?thesis by auto
  next
    case False
    with positiveD[OF assms(1), of r] r show ?thesis by auto
  qed
qed

lemma tot_new_child:
  fixes t :: FPTree and s :: "int option"
  assumes "linked t" "p < length (store t)" "map_of (children (store t ! p)) k = None"
  shows "tot (store (new_child t p k s)) k' =
           tot (store t) k' + (if k' = k then (case s of None \<Rightarrow> 0 | Some v \<Rightarrow> v) else 0)"
proof -
  note f = new_child_fields[OF assms, where s=s]
  note o = occ_new_child[OF assms, where s=s]
  have m: "map (sval (store (new_child t p k s))) (occ (store t) kk) = map (sval (store t)) (occ (store t) kk)" for kk
    by (rule map_cong) (auto simp: occ_set sval_def f(5))
  have sv: "sval (store (new_child t p k s)) (length (store t)) = (case s of None \<Rightarrow> 0 | Some v \<Rightarrow> v)"
    by (simp add: sval_def f(3) new_node_def)
  show ?thesis
    by (simp add: tot_def o m sv)
qed

lemma positive_new_child:
  fixes t :: FPTree
  assumes "linked t" "p < length (store t)" "map_of (children (store t ! p)) k = None" "positive (store t)" "0 < v"
  shows "positive (store (new_child t p k (Some v)))"
  unfolding positive_def
proof (intro allI impI)
  note f = new_child_fields[OF assms(1-3), where s="Some v"]
  fix r assume r: "0 < r \<and> r < length (store (new_child t p k (Some v)))"
  then have "r < length (store t) \<or> r = length (store t)" by (auto simp: f(1))
  then show "\<exists>s. support (store (new_child t p k (Some v)) ! r) = Some s \<and> 0 < s"
  proof
    assume "r < length (store t)"
    with positiveD[OF assms(4), of r] r show ?thesis by (simp add: f(5))
  next
    assume "r = length (store t)"
    then show ?thesis using assms(5) by (simp add: f(3) new_node_def)
  qed
qed

lemma add_transaction_from_total:
  "wf_tree t \<Longrightarrow> positive (store t) \<Longrightarrow> point < length (store t) \<Longrightarrow>
   \<exists>t'. add_transaction_from t point itemset = Inr t' \<and> wf_tree t' \<and> positive (store t') \<and>
        (\<forall>k. tot (store t') k = tot (store t) k + int (count_list (map Some itemset) k))"
proof (induction itemset arbitrary: t point)
  case Nil
  then show ?case by simp
next
  case (Cons i itemset)
  show ?case
  proof (cases "search (store t) point (Some i)")
    case None
    then have c: "map_of (children (store t ! point)) (Some i) = None" by (simp add: search_def)
    note l = wf_treeD(5)[OF Cons.prems(1)]
    let ?t = "new_child t point (Some i) (Some 1)"
    have w: "wf_tree ?t" by (rule wf_new_child[OF Cons.prems(1,3) c])
    have po: "positive (store ?t)" by (rule positive_new_child[OF l Cons.prems(3) c Cons.prems(2)]) simp
    have len: "length (store t) < length (store ?t)"
      by (simp add: new_child_fields(1)[OF l Cons.prems(3) c])
    from Cons.IH[OF w po len] obtain t' where t': "add_transaction_from ?t (length (store t)) itemset = Inr t'"
      "wf_tree t'" "positive (store t')"
      "\<And>k. tot (store t') k = tot (store ?t) k + int (count_list (map Some itemset) k)" by blast
    have "tot (store t') k = tot (store t) k + int (count_list (map Some (i # itemset)) k)" for k
      by (simp add: t'(4) tot_new_child[OF l Cons.prems(3) c])
    then show ?thesis using t'(1-3) None by simp
  next
    case (Some c)
    then have "map_of (children (store t ! point)) (Some i) = Some c" by (simp add: search_def)
    from wf_childrenD[OF wf_treeD(3)[OF Cons.prems(1)] Cons.prems(3) this]
    have c: "point < c" "c < length (store t)" "item (store t ! c) = Some i" by simp_all
    then have c0: "0 < c" by simp
    from positiveD[OF Cons.prems(2) c0 c(2)] obtain x where x: "support (store t ! c) = Some x" by blast
    let ?t = "t\<lparr>store := (store t)[c := (store t ! c)\<lparr>support := Some (x + 1)\<rparr>]\<rparr>"
    have w: "wf_tree ?t" using wf_support_update[OF Cons.prems(1), of c] c0 by simp
    have po: "positive (store ?t)" using positive_increment[OF Cons.prems(2) x c0] by simp
    have len: "c < length (store ?t)" using c(2) by simp
    from Cons.IH[OF w po len] obtain t' where t': "add_transaction_from ?t c itemset = Inr t'"
      "wf_tree t'" "positive (store t')"
      "\<And>k. tot (store t') k = tot (store ?t) k + int (count_list (map Some itemset) k)" by blast
    have "tot (store t') k = tot (store t) k + int (count_list (map Some (i # itemset)) k)" for k
      using tot_increment[OF c0 c(2) x, of k] c(3) by (simp add: t'(4))
    then show ?thesis using t'(1-3) Some x by (simp add: increment_node_support_def)
  qed
qed

lemma sum_support_tot:
  "(\<And>r. r \<in> set rs \<Longrightarrow> support (st ! r) \<noteq> None) \<Longrightarrow> sum_support st rs = Inr (sum_list (map (sval st) rs))"
  by (induction rs) (auto simp: sval_def split: option.splits)

lemma add_transactions_total:
  "wf_tree t \<Longrightarrow> positive (store t) \<Longrightarrow>
   \<exists>t'. add_transactions t ts = Inr t' \<and> wf_tree t' \<and> positive (store t') \<and>
        (\<forall>k. tot (store t') k = tot (store t) k + (\<Sum>x\<leftarrow>ts. int (count_list (map Some x) k)))"
proof (induction ts arbitrary: t)
  case Nil
  then show ?case by simp
next
  case (Cons x ts)
  from add_transaction_from_total[OF Cons.prems wf_root_length[OF Cons.prems(1)], of x]
  obtain t1 where t1: "add_transaction t x = Inr t1" "wf_tree t1" "positive (store t1)"
    "\<And>k. tot (store t1) k = tot (store t) k + int (count_list (map Some x) k)"
    unfolding add_transaction_def by blast
  from Cons.IH[OF t1(2,3)] obtain t' where t': "add_transactions t1 ts = Inr t'" "wf_tree t'" "positive (store t')"
    "\<And>k. tot (store t') k = tot (store t1) k + (\<Sum>x\<leftarrow>ts. int (count_list (map Some x) k))" by blast
  have "tot (store t') k = tot (store t) k + (\<Sum>x\<leftarrow>x # ts. int (count_list (map Some x) k))" for k
    by (simp add: t'(4) t1(4))
  then show ?case using t1(1) t'(1-3) by simp
qed

lemma positive_init: "positive (store FPTree_init)"
  by (simp add: positive_def FPTree_init_def)

lemma tot_init: "tot (store FPTree_init) k = 0"
  by (simp add: tot_def occ_def FPTree_init_def)

lemma count_list_Some: "count_list (map Some x) (Some i) = count_list x i"
  by (induction x) auto

lemma count_list_distinct: "distinct x \<Longrightarrow> count_list x i = (if i \<in> set x then 1 else 0)"
  by (induction x) auto

lemma sum_count_distinct:
  "(\<And>x. x \<in> set ts \<Longrightarrow> distinct x) \<Longrightarrow>
   (\<Sum>x\<leftarrow>ts. int (count_list (map Some x) (Some i))) = int (length (filter (\<lambda>x. i \<in> set x) ts))"
  by (induction ts) (auto simp: count_list_Some count_list_distinct)

lemma items_occ:
  assumes "linked t"
  shows "k \<in> set (items t) \<longleftrightarrow> occ (store t) k \<noteq> []"
proof -
  have "k \<in> set (items t) \<longleftrightarrow> map_of (hyperlinks t) k \<noteq> None"
    by (simp add: items_def map_of_eq_None_iff)
  also have "\<dots> \<longleftrightarrow> occ (store t) k \<noteq> []"
    using assms by (simp add: linked_def route_of_def)
  finally show ?thesis .
qed

lemma sum_list_pos:
  fixes f :: "nat \<Rightarrow> int"
  assumes "\<And>r. r \<in> set rs \<Longrightarrow> 0 < f r" "rs \<noteq> []"
  shows "0 < sum_list (map f rs)"
proof (cases rs)
  case Nil
  with assms(2) show ?thesis by simp
next
  case (Cons a rs')
  have "0 \<le> sum_list (map f rs')"
    by (rule sum_list_nonneg) (use assms(1) Cons in force)
  moreover have "0 < f a" using assms(1) Cons by simp
  ultimately show ?thesis using Cons by simp
qed

lemma sval_positive: "positive st \<Longrightarrow> r \<in> set (occ st k) \<Longrightarrow> 0 < sval st r"
proof -
  assume a: "positive st" "r \<in> set (occ st k)"
  then have "0 < r" "r < length st" by (simp_all add: occ_set)
  from positiveD[OF a(1) this] show ?thesis by (auto simp: sval_def)
qed

lemma tot_positive:
  assumes "positive st" "occ st k \<noteq> []"
  shows "0 < tot st k"
  unfolding tot_def by (rule sum_list_pos[OF sval_positive[OF assms(1)] assms(2)])

lemma walk_cong:
  "(\<And>r. children (st' ! r) = children (st ! r)) \<Longrightarrow> walk st' p itemset = walk st p itemset"
  by (induction itemset arbitrary: p) (auto simp: search_def split: option.splits)

lemma add_again:
  "wf_tree t \<Longrightarrow> positive (store t) \<Longrightarrow> p < length (store t) \<Longrightarrow> walk (store t) p itemset = Some cs \<Longrightarrow>
   \<exists>t'. add_transaction_from t p itemset = Inr t' \<and> wf_tree t' \<and> positive (store t') \<and>
        length (store t') = length (store t) \<and> hyperlinks t' = hyperlinks t \<and>
        (\<forall>r. children (store t' ! r) = children (store t ! r)) \<and>
        (\<forall>r. sval (store t') r = sval (store t) r + int (count_list cs r))"
proof (induction itemset arbitrary: t p cs)
  case Nil
  then show ?case by simp
next
  case (Cons i itemset)
  from Cons.prems(4) obtain c cs' where c: "search (store t) p (Some i) = Some c"
    "walk (store t) c itemset = Some cs'" "cs = c # cs'"
    by (auto split: option.splits)
  then have "map_of (children (store t ! p)) (Some i) = Some c" by (simp add: search_def)
  from wf_childrenD[OF wf_treeD(3)[OF Cons.prems(1)] Cons.prems(3) this]
  have cb: "p < c" "c < length (store t)" by simp_all
  then have c0: "0 < c" by simp
  from positiveD[OF Cons.prems(2) c0 cb(2)] obtain x where x: "support (store t ! c) = Some x" by blast
  let ?t = "t\<lparr>store := (store t)[c := (store t ! c)\<lparr>support := Some (x + 1)\<rparr>]\<rparr>"
  have w: "wf_tree ?t" using wf_support_update[OF Cons.prems(1), of c] c0 by simp
  have po: "positive (store ?t)" using positive_increment[OF Cons.prems(2) x c0] by simp
  have len: "c < length (store ?t)" using cb(2) by simp
  have wk: "walk (store ?t) c itemset = Some cs'"
    using c(2) walk_cong[of "store ?t" "store t" c itemset] by simp
  from Cons.IH[OF w po len wk] obtain t' where t': "add_transaction_from ?t c itemset = Inr t'"
    "wf_tree t'" "positive (store t')" "length (store t') = length (store ?t)" "hyperlinks t' = hyperlinks ?t"
    "\<And>r. children (store t' ! r) = children (store ?t ! r)"
    "\<And>r. sval (store t') r = sval (store ?t) r + int (count_list cs' r)" by blast
  have sv: "sval (store ?t) r = sval (store t) r + (if r = c then 1 else 0)" for r
  proof (cases "r = c")
    case True
    then show ?thesis using x cb(2) by (simp add: sval_def)
  next
    case False
    then show ?thesis by (simp add: sval_def)
  qed
  have "sval (store t') r = sval (store t) r + int (count_list cs r)" for r
    using t'(7)[of r] sv[of r] by (simp add: c(3))
  moreover have "add_transaction_from t p (i # itemset) = Inr t'"
    using c(1) x t'(1) by (simp add: increment_node_support_def)
  ultimately show ?case using t'(2-6) by simp
qed

lemma add_keeps_children:
  "wf_tree t \<Longrightarrow> p < length (store t) \<Longrightarrow> add_transaction_from t p itemset = Inr t' \<Longrightarrow>
   q < length (store t) \<Longrightarrow> search (store t) q k = Some c \<Longrightarrow> search (store t') q k = Some c"
proof (induction itemset arbitrary: t p)
  case Nil
  then show ?case by simp
next
  case (Cons i itemset)
  show ?case
  proof (cases "search (store t) p (Some i)")
    case None
    then have n: "map_of (children (store t ! p)) (Some i) = None" by (simp add: search_def)
    note l = wf_treeD(5)[OF Cons.prems(1)]
    note f = new_child_fields[OF l Cons.prems(2) n, where s="Some 1"]
    let ?t = "new_child t p (Some i) (Some 1)"
    have w: "wf_tree ?t" by (rule wf_new_child[OF Cons.prems(1,2) n])
    have s: "search (store ?t) q k = Some c"
      using Cons.prems(4,5) n by (auto simp: search_def f(7) update_conv')
    show ?thesis
      by (rule Cons.IH[OF w _ _ _ s]) (use Cons.prems(3,4) None in \<open>simp_all add: f(1)\<close>)
  next
    case (Some d)
    then have "map_of (children (store t ! p)) (Some i) = Some d" by (simp add: search_def)
    from wf_childrenD[OF wf_treeD(3)[OF Cons.prems(1)] Cons.prems(2) this]
    have d: "p < d" "d < length (store t)" by simp_all
    then have d0: "d \<noteq> 0" by simp
    from Cons.prems(3) Some obtain x where x: "support (store t ! d) = Some x"
      "add_transaction_from (t\<lparr>store := (store t)[d := (store t ! d)\<lparr>support := Some (x + 1)\<rparr>]\<rparr>) d itemset = Inr t'"
      by (auto simp: increment_node_support_def split: option.splits)
    show ?thesis
      by (rule Cons.IH[OF wf_support_update[OF Cons.prems(1) d0] _ x(2)])
         (use d Cons.prems(4,5) in \<open>simp_all add: search_def\<close>)
  qed
qed

lemma add_fresh:
  "wf_tree t \<Longrightarrow> positive (store t) \<Longrightarrow> p < length (store t) \<Longrightarrow> children (store t ! p) = [] \<Longrightarrow>
   \<exists>t'. add_transaction_from t p itemset = Inr t' \<and> wf_tree t' \<and> positive (store t') \<and>
        length (store t') = length (store t) + length itemset \<and>
        walk (store t') p itemset = Some [length (store t) ..< length (store t) + length itemset] \<and>
        (\<forall>r < length (store t). support (store t' ! r) = support (store t ! r)) \<and>
        (\<forall>r. length (store t) \<le> r \<and> r < length (store t') \<longrightarrow> support (store t' ! r) = Some 1)"
proof (induction itemset arbitrary: t p)
  case Nil
  then show ?case by auto
next
  case (Cons i itemset)
  let ?n = "length (store t)"
  from Cons.prems(4) have n: "map_of (children (store t ! p)) (Some i) = None" by simp
  then have se: "search (store t) p (Some i) = None" by (simp add: search_def)
  note l = wf_treeD(5)[OF Cons.prems(1)]
  note f = new_child_fields[OF l Cons.prems(3) n, where s="Some 1"]
  let ?t = "new_child t p (Some i) (Some 1)"
  have w: "wf_tree ?t" by (rule wf_new_child[OF Cons.prems(1,3) n])
  have po: "positive (store ?t)" by (rule positive_new_child[OF l Cons.prems(3) n Cons.prems(2)]) simp
  have len: "?n < length (store ?t)" by (simp add: f(1))
  have leaf: "children (store ?t ! ?n) = []" by (simp add: f(3) new_node_def)
  from Cons.IH[OF w po len leaf] obtain t' where t': "add_transaction_from ?t ?n itemset = Inr t'"
    "wf_tree t'" "positive (store t')" "length (store t') = length (store ?t) + length itemset"
    "walk (store t') ?n itemset = Some [length (store ?t) ..< length (store ?t) + length itemset]"
    "\<And>r. r < length (store ?t) \<Longrightarrow> support (store t' ! r) = support (store ?t ! r)"
    "\<And>r. length (store ?t) \<le> r \<and> r < length (store t') \<Longrightarrow> support (store t' ! r) = Some 1"
    by blast
  have s1: "search (store ?t) p (Some i) = Some ?n"
    using Cons.prems(3) by (simp add: search_def f(7) update_conv')
  have s': "search (store t') p (Some i) = Some ?n"
    by (rule add_keeps_children[OF w len t'(1) _ s1]) (use Cons.prems(3) in \<open>simp add: f(1)\<close>)
  have run: "add_transaction_from t p (i # itemset) = Inr t'" using se t'(1) by simp
  have wl: "walk (store t') p (i # itemset) = Some [?n ..< ?n + length (i # itemset)]"
  proof -
    have e: "[?n ..< ?n + length (i # itemset)] = ?n # [length (store ?t) ..< length (store ?t) + length itemset]"
      unfolding f(1) by (subst upt_rec) simp
    show ?thesis unfolding e using s' t'(5) by simp
  qed
  have old: "support (store t' ! r) = support (store t ! r)" if "r < ?n" for r
    using that t'(6)[of r] by (simp add: f(1) f(5))
  have new: "support (store t' ! r) = Some 1" if "?n \<le> r \<and> r < length (store t')" for r
  proof (cases "r = ?n")
    case True
    then show ?thesis using t'(6)[of r] by (simp add: f(1) f(3) new_node_def)
  next
    case False
    with that show ?thesis using t'(7)[of r] by (simp add: f(1))
  qed
  from run t'(2,3) t'(4) wl old new show ?case by (auto simp: f(1))
qed

lemma project_paths_one_item:
  assumes "\<And>p. p \<in> set paths \<Longrightarrow> p \<noteq> [] \<and> item (src ! last p) = k"
    and "seed = PyFalse \<or> seed = Seed k"
  shows "project_paths src seed nt paths =
           Inr (if paths = [] then seed else Seed k,
                fold (\<lambda>path nt. project_path src (Seed k) nt (root nt) path) paths nt)"
  using assms
proof (induction paths arbitrary: seed nt)
  case Nil
  then show ?case by simp
next
  case (Cons path paths)
  have p: "path \<noteq> []" "item (src ! last path) = k" using Cons.prems(1)[of path] by simp_all
  have rest: "\<And>p. p \<in> set paths \<Longrightarrow> p \<noteq> [] \<and> item (src ! last p) = k"
    using Cons.prems(1) by simp
  have ih: "project_paths src (Seed k) nt' paths =
           Inr (Seed k, fold (\<lambda>path nt. project_path src (Seed k) nt (root nt) path) paths nt')" for nt'
    using Cons.IH[OF rest, of "Seed k" nt'] by (cases "paths = []") simp_all
  show ?case
  proof (cases "py_bool seed")
    case True
    with Cons.prems(2) have "seed = Seed k" by auto
    then show ?thesis using True ih by simp
  next
    case False
    then show ?thesis using p ih by (simp add: Let_def)
  qed
qed

lemma prefix_paths_same_item:
  assumes "wf_tree t" "prefix_paths t (Some i) = Some (Inr paths)"
  shows "paths \<noteq> [] \<and> (\<forall>p\<in>set paths. p \<noteq> [] \<and> item (store t ! last p) = Some i)"
proof -
  from assms(2) have ne: "occ (store t) (Some i) \<noteq> []"
    by (cases "occ (store t) (Some i) = []") (simp_all add: prefix_paths_wf[OF assms(1)])
  with assms(2) have ps: "paths = map (path_to (store t)) (occ (store t) (Some i))"
    by (simp add: prefix_paths_wf[OF assms(1)])
  have "p \<noteq> [] \<and> item (store t ! last p) = Some i" if "p \<in> set paths" for p
  proof -
    from that ps obtain r where r: "r \<in> set (occ (store t) (Some i))" "p = path_to (store t) r" by auto
    then have "item (store t ! r) = Some i" by (simp add: occ_set)
    then have "\<not> FPNode_root (store t ! r)" by (simp add: FPNode_root_def)
    then have "path_to (store t) r =
        (case parent (store t ! r) of
           Some p \<Rightarrow> (if p < r then path_to (store t) p else [])
         | None \<Rightarrow> []) @ [r]"
      by (subst path_to.simps) simp
    then obtain q where "path_to (store t) r = q @ [r]" by blast
    with r \<open>item (store t ! r) = Some i\<close> show ?thesis by simp
  qed
  with ne ps show ?thesis by simp
qed

lemma insertedD:
  assumes "inserted t p itemset t' cs"
  shows "walk (store t') p itemset = Some cs" "sorted_wrt (<) (p # cs)"
    "length (store t) \<le> length (store t')" "root t' = root t"
    "\<And>r. r < length (store t) \<Longrightarrow> item (store t' ! r) = item (store t ! r)"
    "\<And>r. r < length (store t) \<Longrightarrow> parent (store t' ! r) = parent (store t ! r)"
    "\<And>r. r < length (store t) \<Longrightarrow> support (store t' ! r) =
            (if r \<in> set cs then map_option (\<lambda>s. s + 1) (support (store t ! r)) else support (store t ! r))"
    "\<And>r. length (store t) \<le> r \<Longrightarrow> r < length (store t') \<Longrightarrow> r \<in> set cs \<and> support (store t' ! r) = Some 1"
    "\<And>k. occ (store t') k =
          occ (store t) k @ filter (\<lambda>r. length (store t) \<le> r \<and> item (store t' ! r) = k) cs"
  using assms unfolding inserted_def by blast+

lemma insertedI:
  assumes "walk (store t') p itemset = Some cs" "sorted_wrt (<) (p # cs)"
    "length (store t) \<le> length (store t')" "root t' = root t"
    "\<And>r. r < length (store t) \<Longrightarrow> item (store t' ! r) = item (store t ! r)"
    "\<And>r. r < length (store t) \<Longrightarrow> parent (store t' ! r) = parent (store t ! r)"
    "\<And>r. r < length (store t) \<Longrightarrow> support (store t' ! r) =
            (if r \<in> set cs then map_option (\<lambda>s. s + 1) (support (store t ! r)) else support (store t ! r))"
    "\<And>r. length (store t) \<le> r \<Longrightarrow> r < length (store t') \<Longrightarrow> r \<in> set cs \<and> support (store t' ! r) = Some 1"
    "\<And>k. occ (store t') k =
          occ (store t) k @ filter (\<lambda>r. length (store t) \<le> r \<and> item (store t' ! r) = k) cs"
  shows "inserted t p itemset t' cs"
  unfolding inserted_def using assms by blast

lemma inserted_absent:
  fixes t :: FPTree
  assumes w0: "wf_tree t" and p: "p < length (store t)"
    and n: "map_of (children (store t ! p)) (Some i) = None"
    and run: "add_transaction_from (new_child t p (Some i) (Some 1)) (length (store t)) itemset = Inr t'"
    and ins: "inserted (new_child t p (Some i) (Some 1)) (length (store t)) itemset t' cs"
  shows "inserted t p (i # itemset) t' (length (store t) # cs)"
proof -
  let ?n = "length (store t)"
  note l = wf_treeD(5)[OF w0]
  note f = new_child_fields[OF l p n, where s="Some 1"]
  note o = occ_new_child[OF l p n, where s="Some 1"]
  let ?t = "new_child t p (Some i) (Some 1)"
  have w: "wf_tree ?t" by (rule wf_new_child[OF w0 p n])
  have len: "?n < length (store ?t)" by (simp add: f(1))
  note d = insertedD[OF ins]
  have gt: "\<And>r. r \<in> set cs \<Longrightarrow> ?n < r" using d(2) by simp
  have s1: "search (store ?t) p (Some i) = Some ?n"
    using p by (simp add: search_def f(7) update_conv')
  have s': "search (store t') p (Some i) = Some ?n"
    by (rule add_keeps_children[OF w len run _ s1]) (use p in \<open>simp add: f(1)\<close>)
  have itn: "item (store t' ! ?n) = Some i"
    using d(5)[of ?n] by (simp add: f(1) f(3) new_node_def)
  show ?thesis
    proof (intro insertedI)
      show "walk (store t') p (i # itemset) = Some (?n # cs)" using s' d(1) by simp
      show "sorted_wrt (<) (p # ?n # cs)" using d(2) p by auto
      show "?n \<le> length (store t')" using d(3) by (simp add: f(1))
      show "root t' = root t" using d(4) by (simp add: f(2))
      show "item (store t' ! r) = item (store t ! r)" if "r < ?n" for r
        using that d(5)[of r] by (simp add: f(1) f(4))
      show "parent (store t' ! r) = parent (store t ! r)" if "r < ?n" for r
        using that d(6)[of r] by (simp add: f(1) f(6))
      show "support (store t' ! r) =
            (if r \<in> set (?n # cs) then map_option (\<lambda>s. s + 1) (support (store t ! r)) else support (store t ! r))"
        if "r < ?n" for r
      proof -
        from that gt[of r] have "r \<notin> set cs" "r \<noteq> ?n" by auto
        then show ?thesis using that d(7)[of r] by (simp add: f(1) f(5))
      qed
      show "r \<in> set (?n # cs) \<and> support (store t' ! r) = Some 1"
        if "?n \<le> r" "r < length (store t')" for r
      proof (cases "r = ?n")
        case True
        have "?n \<notin> set cs" using gt[of ?n] by auto
        then show ?thesis using True d(7)[of ?n] by (simp add: f(1) f(3) new_node_def)
      next
        case False
        with that d(8)[of r] show ?thesis by (simp add: f(1))
      qed
      show "occ (store t') k = occ (store t) k @ filter (\<lambda>r. ?n \<le> r \<and> item (store t' ! r) = k) (?n # cs)" for k
      proof -
        have "filter (\<lambda>r. Suc ?n \<le> r \<and> item (store t' ! r) = k) cs =
              filter (\<lambda>r. ?n \<le> r \<and> item (store t' ! r) = k) cs"
        proof (rule filter_cong)
          fix r assume "r \<in> set cs"
          from gt[OF this] show "(Suc ?n \<le> r \<and> item (store t' ! r) = k) = (?n \<le> r \<and> item (store t' ! r) = k)"
            by auto
        qed simp
        then show ?thesis using d(9)[of k] itn by (auto simp: f(1) o)
      qed
    qed
qed

lemma inserted_found:
  fixes t :: FPTree
  assumes w0: "wf_tree t" and p: "p < length (store t)"
    and se: "search (store t) p (Some i) = Some c"
    and x: "support (store t ! c) = Some x"
    and run: "add_transaction_from t p (i # itemset) = Inr t'"
    and ins: "inserted (t\<lparr>store := (store t)[c := (store t ! c)\<lparr>support := Some (x + 1)\<rparr>]\<rparr>) c itemset t' cs"
  shows "inserted t p (i # itemset) t' (c # cs)"
proof -
  let ?n = "length (store t)"
  from se have "map_of (children (store t ! p)) (Some i) = Some c" by (simp add: search_def)
  from wf_childrenD[OF wf_treeD(3)[OF w0] p this]
  have c: "p < c" "c < ?n" by simp_all
  let ?t = "t\<lparr>store := (store t)[c := (store t ! c)\<lparr>support := Some (x + 1)\<rparr>]\<rparr>"
  note d = insertedD[OF ins]
  have gt: "\<And>r. r \<in> set cs \<Longrightarrow> c < r" using d(2) by simp
  have s': "search (store t') p (Some i) = Some c"
    by (rule add_keeps_children[OF w0 p run p se])
  have oc: "occ (store ?t) k = occ (store t) k" for k
    by (rule occ_cong) simp_all
  show ?thesis
    proof (intro insertedI)
      show "walk (store t') p (i # itemset) = Some (c # cs)" using s' d(1) by simp
      show "sorted_wrt (<) (p # c # cs)" using d(2) c(1) by auto
      show "?n \<le> length (store t')" using d(3) by simp
      show "root t' = root t" using d(4) by simp
      show "item (store t' ! r) = item (store t ! r)" if "r < ?n" for r
        using that d(5)[of r] by simp
      show "parent (store t' ! r) = parent (store t ! r)" if "r < ?n" for r
        using that d(6)[of r] by simp
      show "support (store t' ! r) =
            (if r \<in> set (c # cs) then map_option (\<lambda>s. s + 1) (support (store t ! r)) else support (store t ! r))"
        if "r < ?n" for r
      proof (cases "r = c")
        case True
        have "c \<notin> set cs" using gt[of c] by auto
        then show ?thesis using True x c(2) d(7)[of c] by simp
      next
        case False
        then show ?thesis using that d(7)[of r] by simp
      qed
      show "r \<in> set (c # cs) \<and> support (store t' ! r) = Some 1"
        if "?n \<le> r" "r < length (store t')" for r
        using that d(8)[of r] by simp
      show "occ (store t') k = occ (store t) k @ filter (\<lambda>r. ?n \<le> r \<and> item (store t' ! r) = k) (c # cs)" for k
        using d(9)[of k] c(2) oc[of k] by simp
    qed
qed

lemma add_transaction_from_inserted:
  "wf_tree t \<Longrightarrow> p < length (store t) \<Longrightarrow> add_transaction_from t p itemset = Inr t' \<Longrightarrow>
   \<exists>cs. inserted t p itemset t' cs"
proof (induction itemset arbitrary: t p)
  case Nil
  then have "t' = t" by simp
  then have "inserted t p [] t' []"
    by (intro insertedI) simp_all
  then show ?case ..
next
  case (Cons i itemset)
  let ?n = "length (store t)"
  show ?case
  proof (cases "search (store t) p (Some i)")
    case None
    then have n: "map_of (children (store t ! p)) (Some i) = None" by (simp add: search_def)
    note f = new_child_fields[OF wf_treeD(5)[OF Cons.prems(1)] Cons.prems(2) n, where s="Some 1"]
    let ?t = "new_child t p (Some i) (Some 1)"
    have w: "wf_tree ?t" by (rule wf_new_child[OF Cons.prems(1,2) n])
    have len: "?n < length (store ?t)" by (simp add: f(1))
    have run: "add_transaction_from ?t ?n itemset = Inr t'" using Cons.prems(3) None by simp
    from Cons.IH[OF w len run] obtain cs where "inserted ?t ?n itemset t' cs" ..
    from inserted_absent[OF Cons.prems(1,2) n run this] show ?thesis ..
  next
    case (Some c)
    then have "map_of (children (store t ! p)) (Some i) = Some c" by (simp add: search_def)
    from wf_childrenD[OF wf_treeD(3)[OF Cons.prems(1)] Cons.prems(2) this]
    have c: "p < c" "c < ?n" by simp_all
    then have c0: "c \<noteq> 0" by simp
    from Cons.prems(3) Some obtain x where x: "support (store t ! c) = Some x"
      "add_transaction_from (t\<lparr>store := (store t)[c := (store t ! c)\<lparr>support := Some (x + 1)\<rparr>]\<rparr>) c itemset = Inr t'"
      by (auto simp: increment_node_support_def split: option.splits)
    let ?t = "t\<lparr>store := (store t)[c := (store t ! c)\<lparr>support := Some (x + 1)\<rparr>]\<rparr>"
    have w: "wf_tree ?t" by (rule wf_support_update[OF Cons.prems(1) c0])
    have len: "c < length (store ?t)" using c(2) by simp
    from Cons.IH[OF w len x(2)] obtain cs where "inserted ?t c itemset t' cs" ..
    from inserted_found[OF Cons.prems(1,2) Some x(1) Cons.prems(3) this] show ?thesis ..
  qed
qed

lemma add_transaction_from_error:
  "add_transaction_from t p itemset = Inl e \<Longrightarrow> e = TypeError"
  by (induction itemset arbitrary: t p)
     (auto simp: increment_node_support_def split: option.splits sum.splits)

lemma walk_items:
  "wf_tree t \<Longrightarrow> p < length (store t) \<Longrightarrow> walk (store t) p itemset = Some cs \<Longrightarrow>
   map (\<lambda>r. item (store t ! r)) cs = map Some itemset \<and> (\<forall>r\<in>set cs. r < length (store t))"
proof (induction itemset arbitrary: p cs)
  case Nil
  then show ?case by simp
next
  case (Cons i itemset)
  from Cons.prems(3) obtain c cs' where c: "search (store t) p (Some i) = Some c"
    "walk (store t) c itemset = Some cs'" "cs = c # cs'"
    by (auto split: option.splits)
  then have "map_of (children (store t ! p)) (Some i) = Some c" by (simp add: search_def)
  from wf_childrenD[OF wf_treeD(3)[OF Cons.prems(1)] Cons.prems(2) this]
  have cb: "c < length (store t)" "item (store t ! c) = Some i" by simp_all
  from Cons.IH[OF Cons.prems(1) cb(1) c(2)] cb c(3) show ?case by simp
qed

lemma has_valuesD:
  "has_values st \<Longrightarrow> 0 < r \<Longrightarrow> r < length st \<Longrightarrow> support (st ! r) \<noteq> None \<and> item (st ! r) \<noteq> None"
  unfolding has_values_def by blast

lemma has_values_new_child:
  fixes t :: FPTree
  assumes "linked t" "p < length (store t)" "map_of (children (store t ! p)) k = None"
    "has_values (store t)" "k \<noteq> None" "s \<noteq> None"
  shows "has_values (store (new_child t p k s))"
  unfolding has_values_def
proof (intro allI impI)
  note f = new_child_fields[OF assms(1-3), where s=s]
  fix r assume r: "0 < r \<and> r < length (store (new_child t p k s))"
  then have "r < length (store t) \<or> r = length (store t)" by (auto simp: f(1))
  then show "support (store (new_child t p k s) ! r) \<noteq> None \<and> item (store (new_child t p k s) ! r) \<noteq> None"
  proof
    assume "r < length (store t)"
    with has_valuesD[OF assms(4), of r] r show ?thesis by (simp add: f(4) f(5))
  next
    assume "r = length (store t)"
    then show ?thesis using assms(5,6) by (simp add: f(3) new_node_def)
  qed
qed

lemma items_new_child:
  fixes t :: FPTree
  assumes "wf_tree t" "p < length (store t)" "map_of (children (store t ! p)) k = None"
  shows "set (items (new_child t p k s)) = insert k (set (items t))"
proof -
  note l = wf_treeD(5)[OF assms(1)]
  note o = occ_new_child[OF l assms(2,3), where s=s]
  have l': "linked (new_child t p k s)" by (rule wf_treeD(5)[OF wf_new_child[OF assms]])
  have "k' \<in> set (items (new_child t p k s)) \<longleftrightarrow> k' = k \<or> k' \<in> set (items t)" for k'
    by (simp add: items_occ[OF l'] items_occ[OF l] o)
  then show ?thesis by blast
qed

lemma project_path_good:
  "wf_tree nt \<Longrightarrow> cur < length (store nt) \<Longrightarrow> has_values (store nt) \<Longrightarrow>
   \<forall>n\<in>set path. item (src ! n) \<noteq> None \<and> support (src ! n) \<noteq> None \<Longrightarrow>
   has_values (store (project_path src seed nt cur path)) \<and>
   set (items (project_path src seed nt cur path)) = set (items nt) \<union> (\<lambda>n. item (src ! n)) ` set path"
proof (induction path arbitrary: nt cur)
  case Nil
  then show ?case by simp
next
  case (Cons node path)
  let ?k = "item (src ! node)"
  have v: "?k \<noteq> None" "support (src ! node) \<noteq> None" using Cons.prems(4) by simp_all
  have rest: "\<forall>n\<in>set path. item (src ! n) \<noteq> None \<and> support (src ! n) \<noteq> None"
    using Cons.prems(4) by simp
  show ?case
  proof (cases "search (store nt) cur ?k")
    case None
    then have c: "map_of (children (store nt ! cur)) ?k = None" by (simp add: search_def)
    let ?s = "if py_eq ?k seed then support (src ! node) else Some 0"
    let ?t = "new_child nt cur ?k ?s"
    note l = wf_treeD(5)[OF Cons.prems(1)]
    have w: "wf_tree ?t" by (rule wf_new_child[OF Cons.prems(1,2) c])
    have len: "length (store nt) < length (store ?t)"
      by (simp add: new_child_fields(1)[OF l Cons.prems(2) c])
    have "?s \<noteq> None" using v(2) by simp
    from has_values_new_child[OF l Cons.prems(2) c Cons.prems(3) v(1) this]
    have hv: "has_values (store ?t)" .
    from Cons.IH[OF w len hv rest]
    have "has_values (store (project_path src seed ?t (length (store nt)) path)) \<and>
          set (items (project_path src seed ?t (length (store nt)) path)) =
            set (items ?t) \<union> (\<lambda>n. item (src ! n)) ` set path" .
    then show ?thesis using None by (simp add: Let_def items_new_child[OF Cons.prems(1,2) c])
  next
    case (Some c)
    then have "map_of (children (store nt ! cur)) ?k = Some c" by (simp add: search_def)
    from wf_childrenD[OF wf_treeD(3)[OF Cons.prems(1)] Cons.prems(2) this]
    have c: "cur < c" "c < length (store nt)" "item (store nt ! c) = ?k" by simp_all
    then have "c \<in> set (occ (store nt) ?k)" by (simp add: occ_set)
    then have "occ (store nt) ?k \<noteq> []" by auto
    then have k: "?k \<in> set (items nt)" by (simp add: items_occ[OF wf_treeD(5)[OF Cons.prems(1)]])
    from Cons.IH[OF Cons.prems(1) c(2) Cons.prems(3) rest]
    have "has_values (store (project_path src seed nt c path)) \<and>
          set (items (project_path src seed nt c path)) = set (items nt) \<union> (\<lambda>n. item (src ! n)) ` set path" .
    then show ?thesis using Some k by auto
  qed
qed

lemma project_fold_good:
  "wf_tree nt \<Longrightarrow> has_values (store nt) \<Longrightarrow>
   \<forall>p\<in>set paths. \<forall>n\<in>set p. item (src ! n) \<noteq> None \<and> support (src ! n) \<noteq> None \<Longrightarrow>
   wf_tree (fold (\<lambda>path nt. project_path src seed nt (root nt) path) paths nt) \<and>
   has_values (store (fold (\<lambda>path nt. project_path src seed nt (root nt) path) paths nt)) \<and>
   set (items (fold (\<lambda>path nt. project_path src seed nt (root nt) path) paths nt)) =
     set (items nt) \<union> (\<lambda>n. item (src ! n)) ` (\<Union>(set ` set paths))"
proof (induction paths arbitrary: nt)
  case Nil
  then show ?case by simp
next
  case (Cons path paths)
  let ?t = "project_path src seed nt (root nt) path"
  have rl: "root nt < length (store nt)" by (rule wf_root_length[OF Cons.prems(1)])
  have w: "wf_tree ?t" by (rule wf_project_path[OF Cons.prems(1) rl])
  have pg: "has_values (store ?t) \<and> set (items ?t) = set (items nt) \<union> (\<lambda>n. item (src ! n)) ` set path"
    by (rule project_path_good[OF Cons.prems(1) rl Cons.prems(2)]) (use Cons.prems(3) in simp)
  have rest: "\<forall>p\<in>set paths. \<forall>n\<in>set p. item (src ! n) \<noteq> None \<and> support (src ! n) \<noteq> None"
    using Cons.prems(3) by simp
  from Cons.IH[OF w conjunct1[OF pg] rest] pg show ?case by auto
qed

lemma propagate_ok:
  "s \<noteq> None \<Longrightarrow> \<forall>n\<in>set ns. support (st ! n) \<noteq> None \<Longrightarrow>
   \<exists>st'. propagate st s ns = Inr st' \<and> (\<forall>q. support (st ! q) \<noteq> None \<longrightarrow> support (st' ! q) \<noteq> None)"
proof (induction ns arbitrary: st)
  case Nil
  then show ?case by simp
next
  case (Cons n ns)
  from Cons.prems(2) obtain a where a: "support (st ! n) = Some a" by auto
  from Cons.prems(1) obtain b where b: "s = Some b" by auto
  let ?st = "st[n := (st ! n)\<lparr>support := Some (a + b)\<rparr>]"
  have keep: "support (?st ! q) \<noteq> None" if "support (st ! q) \<noteq> None" for q
    using that by (cases "n < length st"; cases "q = n") (simp_all add: list_update_beyond)
  have "\<forall>m\<in>set ns. support (?st ! m) \<noteq> None"
    using Cons.prems(2) keep by simp
  from Cons.IH[OF Cons.prems(1) this] obtain st' where st': "propagate ?st s ns = Inr st'"
    "\<And>q. support (?st ! q) \<noteq> None \<Longrightarrow> support (st' ! q) \<noteq> None" by blast
  have "propagate st s (n # ns) = Inr st'" using a b st'(1) by simp
  moreover have "\<forall>q. support (st ! q) \<noteq> None \<longrightarrow> support (st' ! q) \<noteq> None"
    using keep st'(2) by blast
  ultimately show ?case by blast
qed

lemma propagate_all_ok:
  "\<forall>p\<in>set paths. p \<noteq> [] \<Longrightarrow>
   \<forall>p\<in>set paths. \<forall>n\<in>set p. support (st ! n) \<noteq> None \<Longrightarrow>
   \<exists>st'. propagate_all st paths = Inr st' \<and> (\<forall>q. support (st ! q) \<noteq> None \<longrightarrow> support (st' ! q) \<noteq> None)"
proof (induction paths arbitrary: st)
  case Nil
  then show ?case by simp
next
  case (Cons path paths)
  have ne: "path \<noteq> []" using Cons.prems(1) by simp
  then have la: "last path \<in> set path" by simp
  have s: "support (st ! last path) \<noteq> None" using Cons.prems(2) la by simp
  have "\<forall>n\<in>set (rev (butlast path)). support (st ! n) \<noteq> None"
    using Cons.prems(2) by (auto dest: in_set_butlastD)
  from propagate_ok[OF s this] obtain st1 where st1:
    "propagate st (support (st ! last path)) (rev (butlast path)) = Inr st1"
    "\<And>q. support (st ! q) \<noteq> None \<Longrightarrow> support (st1 ! q) \<noteq> None" by blast
  have a: "\<forall>p\<in>set paths. p \<noteq> []" using Cons.prems(1) by simp
  have b: "\<forall>p\<in>set paths. \<forall>n\<in>set p. support (st1 ! n) \<noteq> None"
    using Cons.prems(2) st1(2) by simp
  from Cons.IH[OF a b] obtain st' where st': "propagate_all st1 paths = Inr st'"
    "\<And>q. support (st1 ! q) \<noteq> None \<Longrightarrow> support (st' ! q) \<noteq> None" by blast
  have "propagate_all st (path # paths) = Inr st'" using ne st1(1) st'(1) by simp
  moreover have "\<forall>q. support (st ! q) \<noteq> None \<longrightarrow> support (st' ! q) \<noteq> None"
    using st1(2) st'(2) by blast
  ultimately show ?case by blast
qed

lemma path_to_nonempty:
  "\<not> FPNode_root (st ! r) \<Longrightarrow> path_to st r \<noteq> [] \<and> last (path_to st r) = r"
  by (subst (1 2) path_to.simps) simp

lemma good_path_nodes:
  assumes "good t" "r < length (store t)" "e \<in> set (path_to (store t) r)"
  shows "0 < e" "e < length (store t)" "item (store t ! e) \<noteq> None" "support (store t ! e) \<noteq> None"
    "item (store t ! e) \<in> set (items t)"
proof -
  from assms(1) have w: "wf_tree t" and hv: "has_values (store t)" by (simp_all add: good_def)
  from path_to_elems[OF assms(3)] have e: "\<not> FPNode_root (store t ! e)" "e \<le> r" by simp_all
  have "FPNode_root (store t ! 0)" using wf_treeD(1)[OF w] by (simp add: wf_root_def)
  with e(1) show e0: "0 < e" by (cases e) auto
  show el: "e < length (store t)" using e(2) assms(2) by simp
  from has_valuesD[OF hv e0 el] show "item (store t ! e) \<noteq> None" "support (store t ! e) \<noteq> None" by simp_all
  have "e \<in> set (occ (store t) (item (store t ! e)))" using e0 el by (simp add: occ_set)
  then have "occ (store t) (item (store t ! e)) \<noteq> []" by auto
  then show "item (store t ! e) \<in> set (items t)" by (simp add: items_occ[OF wf_treeD(5)[OF w]])
qed

lemma good_init: "good FPTree_init"
  using wf_init by (simp add: good_def has_values_def) (simp add: FPTree_init_def)

lemma items_init: "items FPTree_init = []"
  by (simp add: items_def FPTree_init_def)

lemma project_good:
  assumes g: "good t" and k: "Some i \<in> set (items t)"
  shows "\<exists>paths proj. prefix_paths t (Some i) = Some (Inr paths) \<and>
           project (store t) paths = Some (Inr proj) \<and> good proj \<and>
           set (items proj) \<subseteq> set (items t) \<and> Some i \<in> set (items proj)"
proof -
  from g have w: "wf_tree t" and hv: "has_values (store t)" by (simp_all add: good_def)
  let ?st = "store t"
  let ?paths = "map (path_to ?st) (occ ?st (Some i))"
  from k have ne: "occ ?st (Some i) \<noteq> []" by (simp add: items_occ[OF wf_treeD(5)[OF w]])
  then have pp: "prefix_paths t (Some i) = Some (Inr ?paths)" by (simp add: prefix_paths_wf[OF w])
  from prefix_paths_same_item[OF w pp]
  have same: "?paths \<noteq> []" "\<And>p. p \<in> set ?paths \<Longrightarrow> p \<noteq> [] \<and> item (?st ! last p) = Some i"
    by blast+
  let ?nt = "fold (\<lambda>path nt. project_path ?st (Seed (Some i)) nt (root nt) path) ?paths FPTree_init"
  from project_paths_one_item[of ?paths ?st "Some i" PyFalse FPTree_init, OF same(2)] same(1)
  have run1: "project_paths ?st PyFalse FPTree_init ?paths = Inr (Seed (Some i), ?nt)" by simp
  have nodes_ok: "item (?st ! n) \<noteq> None \<and> support (?st ! n) \<noteq> None \<and> item (?st ! n) \<in> set (items t)"
    if "p \<in> set ?paths" "n \<in> set p" for p n
  proof -
    from that(1) obtain r where r: "r \<in> set (occ ?st (Some i))" "p = path_to ?st r" by auto
    then have "r < length ?st" by (simp add: occ_set)
    from good_path_nodes(3,4,5)[OF g this, of n] that(2) r(2) show ?thesis by simp
  qed
  have ok2: "\<forall>p\<in>set ?paths. \<forall>n\<in>set p. item (?st ! n) \<noteq> None \<and> support (?st ! n) \<noteq> None"
    using nodes_ok by blast
  from g good_init have wi: "wf_tree FPTree_init" "has_values (store FPTree_init)" by (simp_all add: good_def)
  from project_fold_good[OF wi ok2, where seed="Seed (Some i)"]
  have nt: "wf_tree ?nt" "has_values (store ?nt)"
    "set (items ?nt) = (\<lambda>n. item (?st ! n)) ` (\<Union>(set ` set ?paths))"
    by (simp_all add: items_init)
  have gnt: "good ?nt" using nt(1,2) by (simp add: good_def)
  have sub: "set (items ?nt) \<subseteq> set (items t)"
    unfolding nt(3) using nodes_ok by blast
  have "hd ?paths \<in> set ?paths" using same(1) by (rule hd_in_set)
  moreover from this same(2) have "hd ?paths \<noteq> []" "item (?st ! last (hd ?paths)) = Some i" by blast+
  ultimately have kin: "Some i \<in> set (items ?nt)"
    unfolding nt(3) by (metis (no_types, lifting) UN_I image_eqI last_in_set)
  let ?ps = "map (path_to (store ?nt)) (occ (store ?nt) (Some i))"
  from kin have ne2: "occ (store ?nt) (Some i) \<noteq> []" by (simp add: items_occ[OF wf_treeD(5)[OF nt(1)]])
  then have pp2: "prefix_paths ?nt (Some i) = Some (Inr ?ps)" by (simp add: prefix_paths_wf[OF nt(1)])
  have a: "\<forall>p\<in>set ?ps. p \<noteq> []"
  proof
    fix p assume "p \<in> set ?ps"
    then obtain r where r: "r \<in> set (occ (store ?nt) (Some i))" "p = path_to (store ?nt) r" by auto
    then have "item (store ?nt ! r) = Some i" by (simp add: occ_set)
    then have "\<not> FPNode_root (store ?nt ! r)" by (simp add: FPNode_root_def)
    from path_to_nonempty[OF this] r(2) show "p \<noteq> []" by simp
  qed
  have b: "\<forall>p\<in>set ?ps. \<forall>n\<in>set p. support (store ?nt ! n) \<noteq> None"
  proof (intro ballI)
    fix p n assume "p \<in> set ?ps" "n \<in> set p"
    then obtain r where r: "r \<in> set (occ (store ?nt) (Some i))" "n \<in> set (path_to (store ?nt) r)" by auto
    then have "r < length (store ?nt)" by (simp add: occ_set)
    from good_path_nodes(4)[OF gnt this r(2)] show "support (store ?nt ! n) \<noteq> None" .
  qed
  from propagate_all_ok[OF a b] obtain st' where st': "propagate_all (store ?nt) ?ps = Inr st'"
    "\<And>q. support (store ?nt ! q) \<noteq> None \<Longrightarrow> support (st' ! q) \<noteq> None" by blast
  let ?proj = "?nt\<lparr>store := st'\<rparr>"
  have run: "project ?st ?paths = Some (Inr ?proj)"
    unfolding project_def run1 by (simp add: pp2 st'(1))
  have wp: "wf_tree ?proj" by (rule wf_propagate_paths[OF nt(1) st'(1)])
  note sh = propagate_all_shape[OF st'(1)]
  have "has_values st'"
    unfolding has_values_def
  proof (intro allI impI)
    fix r assume "0 < r \<and> r < length st'"
    with sh have r: "0 < r" "r < length (store ?nt)" by simp_all
    from has_valuesD[OF nt(2) r] st'(2)[of r] sh
    show "support (st' ! r) \<noteq> None \<and> item (st' ! r) \<noteq> None" by simp
  qed
  with wp have gp: "good ?proj" by (simp add: good_def)
  have ip: "items ?proj = items ?nt" by (simp add: items_def)
  from pp run gp sub kin ip show ?thesis by auto
qed

lemma good_key_Some:
  assumes "good t" "k \<in> set (items t)"
  shows "\<exists>i. k = Some i"
proof -
  from assms(1) have w: "wf_tree t" and hv: "has_values (store t)" by (simp_all add: good_def)
  from assms(2) have "occ (store t) k \<noteq> []" by (simp add: items_occ[OF wf_treeD(5)[OF w]])
  then obtain r where "r \<in> set (occ (store t) k)" by (cases "occ (store t) k") auto
  then have r: "0 < r" "r < length (store t)" "item (store t ! r) = k" by (simp_all add: occ_set)
  from has_valuesD[OF hv r(1,2)] r(3) show ?thesis by auto
qed

lemma good_nodes_sum:
  assumes "good t" "k \<in> set (items t)"
  shows "\<exists>ns s. nodes t k = Some (Inr ns) \<and> sum_support (store t) ns = Inr s"
proof -
  from assms(1) have w: "wf_tree t" and hv: "has_values (store t)" by (simp_all add: good_def)
  from assms(2) have ne: "occ (store t) k \<noteq> []" by (simp add: items_occ[OF wf_treeD(5)[OF w]])
  then have n: "nodes t k = Some (Inr (occ (store t) k))" by (simp add: nodes_linked[OF wf_treeD(5)[OF w]])
  have "sum_support (store t) (occ (store t) k) = Inr (sum_list (map (sval (store t)) (occ (store t) k)))"
  proof (rule sum_support_tot)
    fix r assume "r \<in> set (occ (store t) k)"
    then have "0 < r" "r < length (store t)" by (simp_all add: occ_set)
    from has_valuesD[OF hv this] show "support (store t ! r) \<noteq> None" by simp
  qed
  with n show ?thesis by blast
qed

lemma recursive_call_good:
  assumes "good t" "recursive_call eps t sfx proj sfx'"
  shows "good proj \<and> set (items proj) \<subseteq> set (items t) \<and>
         card (set (items proj) - set sfx') < card (set (items t) - set sfx)"
proof -
  from assms(2) obtain k where k: "k \<in> set (items t)" "k \<notin> set sfx"
    "bindE (prefix_paths t k) (project (store t)) = Some (Inr proj)" "sfx' = k # sfx"
    unfolding recursive_call_def by blast
  from good_key_Some[OF assms(1) k(1)] obtain i where i: "k = Some i" ..
  from project_good[OF assms(1) k(1)[unfolded i]] obtain paths proj' where p:
    "prefix_paths t (Some i) = Some (Inr paths)" "project (store t) paths = Some (Inr proj')"
    "good proj'" "set (items proj') \<subseteq> set (items t)" by blast
  from k(3) p(1,2) have "proj' = proj" by (simp add: i)
  with p have g: "good proj" "set (items proj) \<subseteq> set (items t)" by simp_all
  have "set (items proj) - set sfx' \<subset> set (items t) - set sfx"
    using g(2) k(1,2,4) by auto
  then have "card (set (items proj) - set sfx') < card (set (items t) - set sfx)"
    by (intro psubset_card_mono) simp_all
  with g show ?thesis by simp
qed

lemma fp_search_loop_terminates:
  "good t \<Longrightarrow> set todo \<subseteq> set (items t) \<Longrightarrow> \<exists>res. fp_search_loop t todo eps sfx = Some (Inr res)"
proof (induction "card (set (items t) - set sfx)" arbitrary: t sfx todo rule: less_induct)
  case less
  from less.prems(2) show ?case
  proof (induction todo)
    case Nil
    show ?case by (subst fp_search_loop.simps) simp
  next
    case (Cons k todo')
    then have kin: "k \<in> set (items t)" and sub: "set todo' \<subseteq> set (items t)" by simp_all
    from Cons.IH[OF sub] obtain others where others: "fp_search_loop t todo' eps sfx = Some (Inr others)" ..
    from good_nodes_sum[OF less.prems(1) kin] obtain ns s where ns: "nodes t k = Some (Inr ns)"
      "sum_support (store t) ns = Inr s" by blast
    show ?case
    proof (cases "eps \<le> s \<and> k \<notin> set sfx")
      case False
      then show ?thesis using ns others by (subst fp_search_loop.simps) auto
    next
      case True
      from good_key_Some[OF less.prems(1) kin] obtain i where i: "k = Some i" ..
      from project_good[OF less.prems(1) kin[unfolded i]] obtain paths proj where p:
        "prefix_paths t (Some i) = Some (Inr paths)" "project (store t) paths = Some (Inr proj)" by blast
      then have b: "bindE (prefix_paths t k) (project (store t)) = Some (Inr proj)" by (simp add: i)
      have rc: "recursive_call eps t sfx proj (k # sfx)"
        unfolding recursive_call_def using kin ns True b by blast
      from recursive_call_good[OF less.prems(1) rc]
      have g: "good proj" "card (set (items proj) - set (k # sfx)) < card (set (items t) - set sfx)"
        by simp_all
      from less.hyps[OF g(2) g(1), of "items proj" ] obtain found where
        found: "fp_search_loop proj (items proj) eps (k # sfx) = Some (Inr found)" by blast
      show ?thesis using ns others True b found
        by (subst fp_search_loop.simps) simp
    qed
  qed
qed

lemma items_Some_add_transaction:
  assumes w: "wf_tree t" and it: "\<forall>r. 0 < r \<and> r < length (store t) \<longrightarrow> item (store t ! r) \<noteq> None"
    and run: "add_transaction t itemset = Inr t'"
  shows "\<forall>r. 0 < r \<and> r < length (store t') \<longrightarrow> item (store t' ! r) \<noteq> None"
proof (intro allI impI)
  fix r assume r: "0 < r \<and> r < length (store t')"
  have rl: "root t < length (store t)" by (rule wf_root_length[OF w])
  from run have run': "add_transaction_from t (root t) itemset = Inr t'" by (simp add: add_transaction_def)
  from add_transaction_from_inserted[OF w rl run'] obtain cs where "inserted t (root t) itemset t' cs" ..
  note d = insertedD[OF this]
  have w': "wf_tree t'" by (rule wf_add_transaction[OF w run])
  have rl': "root t < length (store t')" using rl d(3) by simp
  note wi = walk_items[OF w' rl' d(1)]
  show "item (store t' ! r) \<noteq> None"
  proof (cases "r < length (store t)")
    case True
    from it r True have "item (store t ! r) \<noteq> None" by blast
    with d(5)[OF True] show ?thesis by simp
  next
    case False
    with d(8)[of r] r have "r \<in> set cs" by simp
    then have "item (store t' ! r) \<in> (\<lambda>r. item (store t' ! r)) ` set cs" by (rule imageI)
    also have "(\<lambda>r. item (store t' ! r)) ` set cs = set (map (\<lambda>r. item (store t' ! r)) cs)" by simp
    also have "\<dots> = set (map Some itemset)" using wi by simp
    finally show ?thesis by auto
  qed
qed

lemma good_add_transactions:
  "wf_tree t \<Longrightarrow> positive (store t) \<Longrightarrow> \<forall>r. 0 < r \<and> r < length (store t) \<longrightarrow> item (store t ! r) \<noteq> None \<Longrightarrow>
   \<exists>t'. add_transactions t ts = Inr t' \<and> good t'"
proof (induction ts arbitrary: t)
  case Nil
  have "has_values (store t)"
    unfolding has_values_def
  proof (intro allI impI)
    fix r assume r: "0 < r \<and> r < length (store t)"
    then have "item (store t ! r) \<noteq> None" using Nil(3) by blast
    moreover from positiveD[OF Nil(2), of r] r have "support (store t ! r) \<noteq> None" by auto
    ultimately show "support (store t ! r) \<noteq> None \<and> item (store t ! r) \<noteq> None" by simp
  qed
  with Nil(1) show ?case by (simp add: good_def)
next
  case (Cons x ts)
  from add_transaction_from_total[OF Cons.prems(1,2) wf_root_length[OF Cons.prems(1)], of x]
  obtain t1 where t1: "add_transaction t x = Inr t1" "wf_tree t1" "positive (store t1)"
    unfolding add_transaction_def by blast
  from Cons.IH[OF t1(2,3) items_Some_add_transaction[OF Cons.prems(1,3) t1(1)]] t1(1)
  show ?case by simp
qed

lemma good_START_TREE: "\<exists>tree. START_TREE ts = Inr tree \<and> good tree"
  unfolding START_TREE_def
  by (rule good_add_transactions[OF wf_init positive_init]) (simp add: FPTree_init_def)

lemma searched_good: "searched ts eps tree sfx \<Longrightarrow> good tree"
proof (induction rule: searched.induct)
  case (top tree)
  with good_START_TREE[of ts] show ?case by auto
next
  case (rec tree suffix proj_tree suffix')
  from recursive_call_good[OF rec.IH rec.hyps(2)] show ?case by simp
qed

lemma fp_search_no_items: "items tree = [] \<Longrightarrow> fp_search tree epsilon suffix = Some (Inr [])"
  unfolding fp_search_def by (subst fp_search_loop.simps) simp

section \<open>The worked example\<close>

text \<open>
  Claim C1. The transactions \<open>[{1,2,3},{1,2},{1,3},{2,3},{1,2,3,4}]\<close>, each in the order
  1, 2, 3, 4 of descending support, are added to a new tree and \<open>fp_search\<close> runs on it with
  \<open>epsilon = 3\<close>. It returns, without an exception, exactly six pairs: \<open>{1}:4\<close>, \<open>{2}:4\<close>,
  \<open>{1,2}:3\<close>, \<open>{3}:4\<close>, \<open>{1,3}:3\<close>, \<open>{2,3}:3\<close>. Neither \<open>{1,2,3}\<close> nor an itemset with
  item 4 is among them.
\<close>

theorem C1_worked_example:
  "bindE (Some (START_TREE [[1, 2, 3], [1, 2], [1, 3], [2, 3], [1, 2, 3, 4]]))
     (\<lambda>tree. fp_search tree 3 []) =
   Some (Inr [([Some 1], 4), ([Some 2], 4), ([Some 1, Some 2], 3),
              ([Some 3], 4), ([Some 1, Some 3], 3), ([Some 2, Some 3], 3)])"
  by code_simp

section \<open>Faults\<close>

text \<open>
  Claim C9. \<open>increment_node_support\<close> on a root node, whose item and support are both
  \<open>None\<close>, raises TypeError: it neither completes nor leaves the store as it was.
\<close>

theorem C9_increment_root_raises:
  "FPNode_root (st ! r) \<Longrightarrow> increment_node_support st r = Inl TypeError"
  by (simp add: FPNode_root_def increment_node_support_def)

theorem C9_increment_root_raises_witness:
  "FPNode_root (store FPTree_init ! root FPTree_init) \<and>
   increment_node_support (store FPTree_init) (root FPTree_init) = Inl TypeError"
proof -
  have h: "FPNode_root (store FPTree_init ! root FPTree_init)"
    by (simp add: FPTree_init_def FPNode_init_def FPNode_root_def)
  from h C9_increment_root_raises [OF h] show ?thesis by simp
qed

lemma follow_links_Some_nonempty: "follow_links st (Some r) \<noteq> Some []"
  by (subst follow_links.simps) (simp add: bind_eq_Some_conv)

text \<open>
  Claim C10. For an item that is no key of \<open>hyperlinks\<close>, consuming \<open>nodes(item)\<close> raises
  (UnboundLocalError); and on no tree and for no item does \<open>nodes\<close> yield the empty
  sequence.
\<close>

theorem C10_nodes_absent_item_raises:
  "(k \<notin> set (items t) \<longrightarrow> nodes t k = Some (Inl UnboundLocalError)) \<and>
   nodes t k \<noteq> Some (Inr [])"
proof
  show "k \<notin> set (items t) \<longrightarrow> nodes t k = Some (Inl UnboundLocalError)"
    by (auto simp: items_def nodes_def split: option.splits dest: map_of_SomeD intro: rev_image_eqI)
  show "nodes t k \<noteq> Some (Inr [])"
    by (auto simp: nodes_def follow_links_Some_nonempty split: option.splits)
qed

theorem C10_nodes_absent_item_raises_witness:
  "Some 7 \<notin> set (items FPTree_init) \<and> nodes FPTree_init (Some 7) = Some (Inl UnboundLocalError)"
  using C10_nodes_absent_item_raises [of "Some 7" FPTree_init]
  by (simp add: items_def FPTree_init_def)

section \<open>The seed of a projection\<close>

text \<open>
  Claim C5. \<open>project\<close> is given the prefix paths of one item: no path is empty and all paths
  end in a node of the same item, any item, 0 included. Then the seed is the item \<open>k\<close> of
  the last node of the first path: every path is inserted by \<open>project_path\<close> with seed
  \<open>k\<close>, which decides the support a new node gets, the loop ends with seed \<open>k\<close>, and the
  final pass runs over \<open>new_tree.prefix_paths(k)\<close>. The paths that \<open>prefix_paths\<close> returns
  for an item of a well-formed tree are of this kind (\<open>prefix_paths_same_item\<close>).
\<close>

theorem C5_seed_of_projection:
  assumes "paths \<noteq> []"
    and "\<forall>p\<in>set paths. p \<noteq> [] \<and> item (src ! last p) = item (src ! last (hd paths))"
  shows "(let k = item (src ! last (hd paths));
              new_tree = fold (\<lambda>path nt. project_path src (Seed k) nt (root nt) path) paths FPTree_init
          in project_paths src PyFalse FPTree_init paths = Inr (Seed k, new_tree) \<and>
             project src paths =
               bindE (prefix_paths new_tree k) (\<lambda>ps.
                 case propagate_all (store new_tree) ps of
                   Inl e \<Rightarrow> Some (Inl e)
                 | Inr st \<Rightarrow> Some (Inr (new_tree\<lparr>store := st\<rparr>))))"
proof -
  let ?k = "item (src ! last (hd paths))"
  have "project_paths src PyFalse FPTree_init paths =
          Inr (Seed ?k, fold (\<lambda>path nt. project_path src (Seed ?k) nt (root nt) path) paths FPTree_init)"
  proof -
    have "p \<noteq> [] \<and> item (src ! last p) = ?k" if "p \<in> set paths" for p
      using assms(2) that by blast
    from project_paths_one_item[of paths src ?k PyFalse FPTree_init, OF this] assms(1)
    show ?thesis by simp
  qed
  then show ?thesis unfolding project_def Let_def by simp
qed

theorem C5_seed_of_projection_witness:
  "\<exists>t. START_TREE [[0], [1, 0]] = Inr t \<and>
       list_all (\<lambda>p. p \<noteq> [] \<and> item (store t ! last p) = item (store t ! last (hd [[1], [2, 3]]))) [[1], [2, 3]] \<and>
       prefix_paths t (Some 0) = Some (Inr [[1], [2, 3]]) \<and>
       item (store t ! last (hd [[1], [2, 3]])) = Some 0 \<and>
       map_sum id fst (project_paths (store t) PyFalse FPTree_init [[1], [2, 3]]) = Inr (Seed (Some 0))"
proof -
  from add_transactions_total[OF wf_init positive_init, of "[[0], [1, 0]]"]
  obtain t where t: "START_TREE [[0], [1, 0]] = Inr t"
    unfolding START_TREE_def by blast
  have "map_sum id (\<lambda>t. (prefix_paths t (Some 0), map (\<lambda>r. item (store t ! r)) [1, 3]))
          (START_TREE [[0], [1, 0]]) = Inr (Some (Inr [[1], [2, 3]]), [Some 0, Some 0])"
    by code_simp
  then have e: "prefix_paths t (Some 0) = Some (Inr [[1], [2, 3]])"
    "item (store t ! 1) = Some 0" "item (store t ! 3) = Some 0"
    by (simp_all add: t)
  from e have h: "\<forall>p\<in>set [[1], [2, 3]]. p \<noteq> [] \<and> item (store t ! last p) = item (store t ! last (hd [[1], [2, 3]]))"
    by simp
  from C5_seed_of_projection[of "[[1], [2, 3]]" "store t", OF _ h]
  have "project_paths (store t) PyFalse FPTree_init [[1], [2, 3]] =
          Inr (Seed (item (store t ! last (hd [[1], [2, 3]]))),
               fold (\<lambda>path nt. project_path (store t) (Seed (item (store t ! last (hd [[1], [2, 3]])))) nt (root nt) path)
                 [[1], [2, 3]] FPTree_init)"
    by (simp add: Let_def del: fold_simps project_path.simps)
  with e have "map_sum id fst (project_paths (store t) PyFalse FPTree_init [[1], [2, 3]]) = Inr (Seed (Some 0))"
    by (simp del: fold_simps project_path.simps)
  with t e show ?thesis by simp
qed

text \<open>
  Only for paths that end in different items, which \<open>fp_search\<close> never passes, can the seed
  change after the first path: \<open>if not bool(seed)\<close> also holds for a seed that is item 0.
  In the tree of the transactions \<open>[0]\<close> and \<open>[3]\<close>, on the paths \<open>[[1], [2]]\<close>, the first
  path ends in item 0 and the loop ends with seed 3.
\<close>

lemma project_paths_mixed_items:
  "bindE (Some (START_TREE [[0], [3]])) (\<lambda>tree.
     Some (Inr (item (store tree ! last (hd [[1], [2]])),
                map_sum id (seed_key \<circ> fst) (project_paths (store tree) PyFalse FPTree_init [[1], [2]])))) =
   Some (Inr (Some 0, Inr (Some 3)))"
  by code_simp

section \<open>The linked list of an item\<close>

lemma reachable_add_transactions:
  "reachable t \<Longrightarrow> add_transactions t ts = Inr t' \<Longrightarrow> reachable t'"
  by (induction ts arbitrary: t) (auto split: sum.splits intro: reachable.add)

lemma reachable_START_TREE: "START_TREE ts = Inr t \<Longrightarrow> reachable t"
  unfolding START_TREE_def by (rule reachable_add_transactions[OF reachable.init])

text \<open>
  Claim C8. A tree is reachable when it is a new tree, or comes from a reachable tree by
  \<open>add_transaction\<close>, or is returned by \<open>project\<close>. Nodes are numbered in the order of
  their creation. In a reachable tree, for every key \<open>k\<close> of \<open>hyperlinks\<close>, \<open>nodes\<close>
  returns a list without repetition, in increasing node number (so in insertion order,
  whatever the supports are), whose elements are exactly the nodes of the tree other than
  the root that carry item \<open>k\<close>.
\<close>

theorem C8_linked_list_in_insertion_order:
  assumes "reachable t" "k \<in> set (items t)"
  shows "\<exists>ns. nodes t k = Some (Inr ns) \<and> distinct ns \<and> sorted ns \<and>
              set ns = {r. in_tree t r \<and> r \<noteq> root t \<and> item (store t ! r) = k}"
proof -
  note w = wf_reachable[OF assms(1)]
  from assms(2) have "map_of (hyperlinks t) k \<noteq> None"
    by (simp add: items_def map_of_eq_None_iff)
  then have ne: "occ (store t) k \<noteq> []"
    using wf_treeD(5)[OF w] by (auto simp: linked_def route_of_def)
  have "root t = 0" using wf_treeD(1)[OF w] by (simp add: wf_root_def)
  then have "set (occ (store t) k) = {r. in_tree t r \<and> r \<noteq> root t \<and> item (store t ! r) = k}"
    by (auto simp: occ_set in_tree_wf[OF w])
  moreover have "sorted (occ (store t) k)" by (simp add: occ_def sorted_wrt_filter)
  ultimately show ?thesis
    using ne by (simp add: nodes_linked[OF wf_treeD(5)[OF w]] occ_distinct)
qed

theorem C8_linked_list_in_insertion_order_witness:
  "\<exists>t. START_TREE [[1, 2], [2], [3, 2]] = Inr t \<and> reachable t \<and> Some 2 \<in> set (items t) \<and>
       (\<exists>ns. nodes t (Some 2) = Some (Inr ns) \<and> distinct ns \<and> sorted ns \<and>
             set ns = {r. in_tree t r \<and> r \<noteq> root t \<and> item (store t ! r) = Some 2})"
proof -
  from add_transactions_total[OF wf_init positive_init, of "[[1, 2], [2], [3, 2]]"]
  obtain t where t: "START_TREE [[1, 2], [2], [3, 2]] = Inr t"
    unfolding START_TREE_def by blast
  have r: "reachable t" by (rule reachable_START_TREE[OF t])
  have "map_sum id items (START_TREE [[1, 2], [2], [3, 2]]) = Inr [Some 1, Some 2, Some 3]"
    by code_simp
  then have k: "Some 2 \<in> set (items t)" by (simp add: t)
  from C8_linked_list_in_insertion_order[OF r k] t r k show ?thesis by blast
qed

section \<open>Conservation of support\<close>

text \<open>
  Claim C4. The transactions come from sets, so no item occurs twice in one of them. Adding
  them to a new tree never raises, and in the tree obtained, for every item \<open>i\<close> that
  occurs in some transaction, the supports of the nodes of \<open>i\<close>'s linked list sum to the
  number of transactions that contain \<open>i\<close>; an item of no transaction has no linked list.
\<close>

theorem C4_support_conservation:
  assumes "\<forall>x\<in>set ts. distinct x"
  shows "\<exists>t. START_TREE ts = Inr t \<and>
           (\<forall>i. if (\<exists>x\<in>set ts. i \<in> set x)
                then (\<exists>ns. nodes t (Some i) = Some (Inr ns) \<and>
                          sum_support (store t) ns = Inr (int (length (filter (\<lambda>x. i \<in> set x) ts))))
                else Some i \<notin> set (items t))"
proof -
  from add_transactions_total[OF wf_init positive_init, of ts]
  obtain t where t: "START_TREE ts = Inr t" "wf_tree t" "positive (store t)"
    "\<And>k. tot (store t) k = tot (store FPTree_init) k + (\<Sum>x\<leftarrow>ts. int (count_list (map Some x) k))"
    unfolding START_TREE_def by blast
  have tt: "tot (store t) (Some i) = int (length (filter (\<lambda>x. i \<in> set x) ts))" for i
    using assms by (simp add: t(4) tot_init sum_count_distinct)
  note l = wf_treeD(5)[OF t(2)]
  have "if (\<exists>x\<in>set ts. i \<in> set x)
        then (\<exists>ns. nodes t (Some i) = Some (Inr ns) \<and>
                  sum_support (store t) ns = Inr (int (length (filter (\<lambda>x. i \<in> set x) ts))))
        else Some i \<notin> set (items t)" for i
  proof (cases "\<exists>x\<in>set ts. i \<in> set x")
    case True
    then have "filter (\<lambda>x. i \<in> set x) ts \<noteq> []" by (auto simp: filter_empty_conv)
    then have "0 < tot (store t) (Some i)" by (simp add: tt)
    then have ne: "occ (store t) (Some i) \<noteq> []" by (auto simp: tot_def)
    have "sum_support (store t) (occ (store t) (Some i)) = Inr (tot (store t) (Some i))"
      unfolding tot_def
    proof (rule sum_support_tot)
      fix r assume "r \<in> set (occ (store t) (Some i))"
      then have "0 < r" "r < length (store t)" by (simp_all add: occ_set)
      from positiveD[OF t(3) this] show "support (store t ! r) \<noteq> None" by auto
    qed
    then show ?thesis using True ne by (simp add: nodes_linked[OF l] tt)
  next
    case False
    then have "filter (\<lambda>x. i \<in> set x) ts = []" by (auto simp: filter_empty_conv)
    then have "tot (store t) (Some i) = 0" by (simp add: tt)
    with tot_positive[OF t(3), of "Some i"] have "occ (store t) (Some i) = []" by (cases "occ (store t) (Some i) = []") simp_all
    then show ?thesis using False by (simp add: items_occ[OF l])
  qed
  with t(1) show ?thesis by blast
qed

theorem C4_support_conservation_witness:
  "list_all distinct [[1, 2], [2], [3, 2::int]] \<and>
   (\<exists>t. START_TREE [[1, 2], [2], [3, 2]] = Inr t \<and>
        (\<exists>ns. nodes t (Some 2) = Some (Inr ns) \<and> sum_support (store t) ns = Inr 3) \<and>
        Some 7 \<notin> set (items t))"
proof -
  have d: "\<forall>x\<in>set [[1, 2], [2], [3, 2::int]]. distinct x" by simp
  from C4_support_conservation[OF d] obtain t where t: "START_TREE [[1, 2], [2], [3, 2]] = Inr t"
    and a: "\<And>i. if (\<exists>x\<in>set [[1, 2], [2], [3, 2]]. i \<in> set x)
                then (\<exists>ns. nodes t (Some i) = Some (Inr ns) \<and>
                          sum_support (store t) ns = Inr (int (length (filter (\<lambda>x. i \<in> set x) [[1, 2], [2], [3, 2]]))))
                else Some i \<notin> set (items t)"
    by blast
  from a[of 2] a[of 7] t show ?thesis by simp
qed

section \<open>Adding a transaction\<close>

text \<open>
  Claim C3, for a well-formed tree \<open>t\<close> (every reachable tree is one, \<open>wf_reachable\<close>, and
  so is the tree after each step below) and a node \<open>point\<close> of it.

  The steps. \<open>add_transaction\<close> starts at the root. With no item left it returns the tree
  as it is. With next item \<open>i\<close>: when \<open>point\<close> has a child \<open>c\<close> for \<open>i\<close>, the support of
  \<open>c\<close> grows by one (TypeError if it is \<open>None\<close>) and the walk goes on from \<open>c\<close>; when it
  has none, the walk goes on from a new node, the next cell of the store, with item \<open>i\<close>,
  support 1, parent \<open>point\<close> and no children, which is now the child of \<open>point\<close> for \<open>i\<close>
  and the last node of the linked list of \<open>i\<close>; the other nodes keep item, support and
  parent.

  The result. \<open>add_transaction\<close> raises nothing but TypeError. When it returns \<open>t'\<close>: from
  the root of \<open>t'\<close> the items of the transaction lead, child by child, through nodes \<open>cs\<close>
  of increasing number, one per item and with that item; a node of \<open>t\<close> keeps its item and
  parent, and its support is one more if it is among \<open>cs\<close> and unchanged if not; every
  node of \<open>t'\<close> that is not in \<open>t\<close> is among \<open>cs\<close> and has support 1; and the linked list of
  every item of \<open>t'\<close> is the one of \<open>t\<close> followed by the new nodes of that item, in the order
  of the transaction.
\<close>

theorem C3_add_transaction_step:
  assumes "wf_tree t" "point < length (store t)"
  shows "add_transaction t itemset = add_transaction_from t (root t) itemset \<and>
    add_transaction_from t point [] = Inr t \<and>
    (case search (store t) point (Some i) of
       Some c \<Rightarrow>
         c < length (store t) \<and> item (store t ! c) = Some i \<and> parent (store t ! c) = Some point \<and>
         (case support (store t ! c) of
            None \<Rightarrow> add_transaction_from t point (i # rest) = Inl TypeError
          | Some s \<Rightarrow>
              wf_tree (t\<lparr>store := (store t)[c := (store t ! c)\<lparr>support := Some (s + 1)\<rparr>]\<rparr>) \<and>
              add_transaction_from t point (i # rest) =
                add_transaction_from (t\<lparr>store := (store t)[c := (store t ! c)\<lparr>support := Some (s + 1)\<rparr>]\<rparr>) c rest)
     | None \<Rightarrow>
         (\<exists>t1. add_transaction_from t point (i # rest) = add_transaction_from t1 (length (store t)) rest \<and>
               wf_tree t1 \<and>
               length (store t1) = Suc (length (store t)) \<and>
               item (store t1 ! length (store t)) = Some i \<and>
               support (store t1 ! length (store t)) = Some 1 \<and>
               parent (store t1 ! length (store t)) = Some point \<and>
               children (store t1 ! length (store t)) = [] \<and>
               search (store t1) point (Some i) = Some (length (store t)) \<and>
               nodes t1 (Some i) =
                 Some (Inr ((case nodes t (Some i) of Some (Inr ns) \<Rightarrow> ns | _ \<Rightarrow> []) @ [length (store t)])) \<and>
               (\<forall>r < length (store t). item (store t1 ! r) = item (store t ! r) \<and>
                                       support (store t1 ! r) = support (store t ! r) \<and>
                                       parent (store t1 ! r) = parent (store t ! r)))) \<and>
    (\<forall>e. add_transaction t itemset = Inl e \<longrightarrow> e = TypeError) \<and>
    (\<forall>t'. add_transaction t itemset = Inr t' \<longrightarrow>
       (\<exists>cs. walk (store t') (root t) itemset = Some cs \<and>
             map (\<lambda>r. item (store t' ! r)) cs = map Some itemset \<and>
             sorted_wrt (<) (root t # cs) \<and>
             wf_tree t' \<and> root t' = root t \<and> length (store t) \<le> length (store t') \<and>
             (\<forall>r < length (store t).
                 item (store t' ! r) = item (store t ! r) \<and> parent (store t' ! r) = parent (store t ! r) \<and>
                 support (store t' ! r) =
                   (if r \<in> set cs then map_option (\<lambda>s. s + 1) (support (store t ! r))
                    else support (store t ! r))) \<and>
             (\<forall>r. length (store t) \<le> r \<and> r < length (store t') \<longrightarrow>
                 r \<in> set cs \<and> support (store t' ! r) = Some 1) \<and>
             (\<forall>k \<in> set (items t').
                 nodes t' k =
                   Some (Inr ((case nodes t k of Some (Inr ns) \<Rightarrow> ns | _ \<Rightarrow> []) @
                              filter (\<lambda>r. length (store t) \<le> r \<and> item (store t' ! r) = k) cs)))))"
proof -
  note w = assms(1)
  note l = wf_treeD(5)[OF w]
  note p = assms(2)
  have a: "add_transaction t itemset = add_transaction_from t (root t) itemset"
    by (simp add: add_transaction_def)
  have b: "add_transaction_from t point [] = Inr t" by simp
  have old: "(case nodes t k of Some (Inr ns) \<Rightarrow> ns | _ \<Rightarrow> []) = occ (store t) k" for k
    by (simp add: nodes_linked[OF l])
  have step: "(case search (store t) point (Some i) of
       Some c \<Rightarrow>
         c < length (store t) \<and> item (store t ! c) = Some i \<and> parent (store t ! c) = Some point \<and>
         (case support (store t ! c) of
            None \<Rightarrow> add_transaction_from t point (i # rest) = Inl TypeError
          | Some s \<Rightarrow>
              wf_tree (t\<lparr>store := (store t)[c := (store t ! c)\<lparr>support := Some (s + 1)\<rparr>]\<rparr>) \<and>
              add_transaction_from t point (i # rest) =
                add_transaction_from (t\<lparr>store := (store t)[c := (store t ! c)\<lparr>support := Some (s + 1)\<rparr>]\<rparr>) c rest)
     | None \<Rightarrow>
         (\<exists>t1. add_transaction_from t point (i # rest) = add_transaction_from t1 (length (store t)) rest \<and>
               wf_tree t1 \<and>
               length (store t1) = Suc (length (store t)) \<and>
               item (store t1 ! length (store t)) = Some i \<and>
               support (store t1 ! length (store t)) = Some 1 \<and>
               parent (store t1 ! length (store t)) = Some point \<and>
               children (store t1 ! length (store t)) = [] \<and>
               search (store t1) point (Some i) = Some (length (store t)) \<and>
               nodes t1 (Some i) =
                 Some (Inr ((case nodes t (Some i) of Some (Inr ns) \<Rightarrow> ns | _ \<Rightarrow> []) @ [length (store t)])) \<and>
               (\<forall>r < length (store t). item (store t1 ! r) = item (store t ! r) \<and>
                                       support (store t1 ! r) = support (store t ! r) \<and>
                                       parent (store t1 ! r) = parent (store t ! r))))"
  proof (cases "search (store t) point (Some i)")
    case (Some c)
    then have "map_of (children (store t ! point)) (Some i) = Some c" by (simp add: search_def)
    from wf_childrenD[OF wf_treeD(3)[OF w] p this]
    have c: "point < c" "c < length (store t)" "item (store t ! c) = Some i" "parent (store t ! c) = Some point"
      by simp_all
    then have "c \<noteq> 0" by simp
    from wf_support_update[OF w this] have "wf_tree (t\<lparr>store := (store t)[c := (store t ! c)\<lparr>support := x\<rparr>]\<rparr>)" for x .
    then show ?thesis using Some c
      by (simp add: increment_node_support_def split: option.splits)
  next
    case None
    then have n: "map_of (children (store t ! point)) (Some i) = None" by (simp add: search_def)
    note f = new_child_fields[OF l p n, where s="Some 1"]
    note o = occ_new_child[OF l p n, where s="Some 1"]
    let ?t = "new_child t point (Some i) (Some 1)"
    have w1: "wf_tree ?t" by (rule wf_new_child[OF w p n])
    have nd: "nodes ?t (Some i) = Some (Inr (occ (store t) (Some i) @ [length (store t)]))"
      by (simp add: nodes_linked[OF wf_treeD(5)[OF w1]] o)
    have s1: "search (store ?t) point (Some i) = Some (length (store t))"
      using p by (simp add: search_def f(7) update_conv')
    have "add_transaction_from t point (i # rest) = add_transaction_from ?t (length (store t)) rest \<and>
               wf_tree ?t \<and>
               length (store ?t) = Suc (length (store t)) \<and>
               item (store ?t ! length (store t)) = Some i \<and>
               support (store ?t ! length (store t)) = Some 1 \<and>
               parent (store ?t ! length (store t)) = Some point \<and>
               children (store ?t ! length (store t)) = [] \<and>
               search (store ?t) point (Some i) = Some (length (store t)) \<and>
               nodes ?t (Some i) =
                 Some (Inr ((case nodes t (Some i) of Some (Inr ns) \<Rightarrow> ns | _ \<Rightarrow> []) @ [length (store t)])) \<and>
               (\<forall>r < length (store t). item (store ?t ! r) = item (store t ! r) \<and>
                                       support (store ?t ! r) = support (store t ! r) \<and>
                                       parent (store ?t ! r) = parent (store t ! r))"
      using None s1 w1 by (simp add: f(1,3,4,5,6) new_node_def old nd)
    then show ?thesis using None by (simp del: add_transaction_from.simps) blast
  qed
  have err: "\<forall>e. add_transaction t itemset = Inl e \<longrightarrow> e = TypeError"
    using add_transaction_from_error[of t "root t" itemset] by (simp add: a)
  have post: "\<exists>cs. walk (store t') (root t) itemset = Some cs \<and>
             map (\<lambda>r. item (store t' ! r)) cs = map Some itemset \<and>
             sorted_wrt (<) (root t # cs) \<and>
             wf_tree t' \<and> root t' = root t \<and> length (store t) \<le> length (store t') \<and>
             (\<forall>r < length (store t).
                 item (store t' ! r) = item (store t ! r) \<and> parent (store t' ! r) = parent (store t ! r) \<and>
                 support (store t' ! r) =
                   (if r \<in> set cs then map_option (\<lambda>s. s + 1) (support (store t ! r))
                    else support (store t ! r))) \<and>
             (\<forall>r. length (store t) \<le> r \<and> r < length (store t') \<longrightarrow>
                 r \<in> set cs \<and> support (store t' ! r) = Some 1) \<and>
             (\<forall>k \<in> set (items t').
                 nodes t' k =
                   Some (Inr ((case nodes t k of Some (Inr ns) \<Rightarrow> ns | _ \<Rightarrow> []) @
                              filter (\<lambda>r. length (store t) \<le> r \<and> item (store t' ! r) = k) cs)))"
    if run: "add_transaction t itemset = Inr t'" for t'
  proof -
    have rl: "root t < length (store t)" by (rule wf_root_length[OF w])
    from run have run': "add_transaction_from t (root t) itemset = Inr t'" by (simp add: a)
    from add_transaction_from_inserted[OF w rl run'] obtain cs where "inserted t (root t) itemset t' cs" ..
    note d = insertedD[OF this]
    have w': "wf_tree t'" by (rule wf_add_transaction[OF w run])
    have rl': "root t < length (store t')" using rl d(3) by simp
    note wi = walk_items[OF w' rl' d(1)]
    have nd: "nodes t' k =
                   Some (Inr ((case nodes t k of Some (Inr ns) \<Rightarrow> ns | _ \<Rightarrow> []) @
                              filter (\<lambda>r. length (store t) \<le> r \<and> item (store t' ! r) = k) cs))"
      if "k \<in> set (items t')" for k
    proof -
      from that have "occ (store t') k \<noteq> []" by (simp add: items_occ[OF wf_treeD(5)[OF w']])
      then have "nodes t' k = Some (Inr (occ (store t') k))" by (simp add: nodes_linked[OF wf_treeD(5)[OF w']])
      then show ?thesis by (simp add: old d(9)[of k])
    qed
    from d(1) wi d(2) w' d(4) d(3) d(5) d(6) d(7) d(8) nd show ?thesis by blast
  qed
  from a b step err post show ?thesis by blast
qed

theorem C3_add_transaction_step_witness:
  "\<exists>t t'. START_TREE [[1]] = Inr t \<and> wf_tree t \<and> root t < length (store t) \<and>
       add_transaction_from t (root t) [] = Inr t \<and>
       search (store t) (root t) (Some 1) = Some 1 \<and> support (store t ! 1) = Some 1 \<and>
       add_transaction_from t (root t) [1] =
         add_transaction_from (t\<lparr>store := (store t)[1 := (store t ! 1)\<lparr>support := Some 2\<rparr>]\<rparr>) 1 [] \<and>
       add_transaction t [1, 2] = Inr t' \<and>
       walk (store t') (root t) [1, 2] = Some [1, 2] \<and>
       support (store t' ! 1) = Some 2 \<and> support (store t' ! 2) = Some 1 \<and>
       nodes t' (Some 2) = Some (Inr [2])"
proof -
  from add_transactions_total[OF wf_init positive_init, of "[[1]]"]
  obtain t where t: "START_TREE [[1]] = Inr t" and w: "wf_tree t"
    unfolding START_TREE_def by blast
  have rl: "root t < length (store t)" by (rule wf_root_length[OF w])
  have "case START_TREE [[1]] of Inl e \<Rightarrow> False
        | Inr t \<Rightarrow> root t = 0 \<and> length (store t) = 2 \<and>
            search (store t) (root t) (Some 1) = Some 1 \<and> support (store t ! 1) = Some 1 \<and>
            nodes t (Some 2) = Some (Inl UnboundLocalError) \<and>
            (case add_transaction t [1, 2] of Inl e \<Rightarrow> False
             | Inr t' \<Rightarrow> walk (store t') 0 [1, 2] = Some [1, 2] \<and> length (store t') = 3 \<and>
                 items t' = [Some 1, Some 2])"
    by code_simp
  with t obtain t' where e: "root t = 0" "length (store t) = 2"
    "search (store t) (root t) (Some 1) = Some 1" "support (store t ! 1) = Some 1"
    "nodes t (Some 2) = Some (Inl UnboundLocalError)"
    and t': "add_transaction t [1, 2] = Inr t'" "walk (store t') 0 [1, 2] = Some [1, 2]"
    "length (store t') = 3" "items t' = [Some 1, Some 2]"
    by (auto split: sum.splits)
  note c = C3_add_transaction_step[OF w rl, of "[1, 2]" 1 "[]"]
  from c have a: "add_transaction_from t (root t) [] = Inr t" by blast
  from c e(3,4) have b: "add_transaction_from t (root t) [1] =
         add_transaction_from (t\<lparr>store := (store t)[1 := (store t ! 1)\<lparr>support := Some 2\<rparr>]\<rparr>) 1 []"
    by simp
  from c t'(1) obtain cs where cs: "walk (store t') (root t) [1, 2] = Some cs"
    "map (\<lambda>r. item (store t' ! r)) cs = map Some [1, 2]"
    "\<And>r. r < length (store t) \<Longrightarrow> support (store t' ! r) =
                   (if r \<in> set cs then map_option (\<lambda>s. s + 1) (support (store t ! r))
                    else support (store t ! r))"
    "\<And>r. length (store t) \<le> r \<and> r < length (store t') \<Longrightarrow> r \<in> set cs \<and> support (store t' ! r) = Some 1"
    "\<And>k. k \<in> set (items t') \<Longrightarrow> nodes t' k =
                   Some (Inr ((case nodes t k of Some (Inr ns) \<Rightarrow> ns | _ \<Rightarrow> []) @
                              filter (\<lambda>r. length (store t) \<le> r \<and> item (store t' ! r) = k) cs))"
    by blast
  from cs(1) t'(2) e(1) have c12: "cs = [1, 2]" by simp
  from cs(3)[of 1] e have s1: "support (store t' ! 1) = Some 2" by (simp add: c12)
  from cs(4)[of 2] e t' have s2: "support (store t' ! 2) = Some 1" by simp
  from cs(2) have "item (store t' ! 2) = Some 2" by (simp add: c12)
  with cs(5)[of "Some 2"] e t' have n2: "nodes t' (Some 2) = Some (Inr [2])" by (simp add: c12)
  from t w rl a e(3,4) b t'(1) cs(1) c12 s1 s2 n2 show ?thesis by blast
qed

section \<open>Adding the same transaction twice\<close>

text \<open>
  Claim C7. Adding a transaction \<open>t\<close> to a new tree and then adding it again never raises.
  The second insertion creates no node; every node other than the root has, after it,
  exactly twice the support it had after the first; and every node has the children it
  had, with no item twice among the keys of its children.
\<close>

theorem C7_insert_twice_doubles:
  "\<exists>t1 t2. add_transaction FPTree_init t = Inr t1 \<and> add_transaction t1 t = Inr t2 \<and>
      length (store t2) = length (store t1) \<and>
      (\<forall>r. r \<noteq> root t1 \<and> r < length (store t1) \<longrightarrow>
           (\<exists>s. support (store t1 ! r) = Some s \<and> support (store t2 ! r) = Some (2 * s))) \<and>
      (\<forall>r < length (store t2). distinct (map fst (children (store t2 ! r))) \<and>
           children (store t2 ! r) = children (store t1 ! r))"
proof -
  have i0: "root FPTree_init < length (store FPTree_init)" "children (store FPTree_init ! root FPTree_init) = []"
    "length (store FPTree_init) = 1" "root FPTree_init = 0"
    by (simp_all add: FPTree_init_def FPNode_init_def)
  from add_fresh[OF wf_init positive_init i0(1,2), of t]
  obtain t1 where t1: "add_transaction FPTree_init t = Inr t1" "wf_tree t1" "positive (store t1)"
    "length (store t1) = 1 + length t"
    "walk (store t1) 0 t = Some [1 ..< 1 + length t]"
    "\<And>r. 1 \<le> r \<and> r < length (store t1) \<Longrightarrow> support (store t1 ! r) = Some 1"
    unfolding add_transaction_def i0(3,4) by auto
  have r1: "root t1 = 0" using wf_treeD(1)[OF t1(2)] by (simp add: wf_root_def)
  have p1: "0 < length (store t1)" by (simp add: t1(4))
  from add_again[OF t1(2,3) p1 t1(5)]
  obtain t2 where t2: "add_transaction t1 t = Inr t2" "wf_tree t2" "positive (store t2)"
    "length (store t2) = length (store t1)"
    "\<And>r. children (store t2 ! r) = children (store t1 ! r)"
    "\<And>r. sval (store t2) r = sval (store t1) r + int (count_list [1 ..< 1 + length t] r)"
    unfolding add_transaction_def r1 by blast
  have dbl: "\<exists>s. support (store t1 ! r) = Some s \<and> support (store t2 ! r) = Some (2 * s)"
    if "r \<noteq> root t1 \<and> r < length (store t1)" for r
  proof -
    from that r1 have r: "0 < r" "r < length (store t1)" by simp_all
    then have a: "support (store t1 ! r) = Some 1" using t1(6)[of r] by simp
    have "count_list [1 ..< 1 + length t] r = 1"
      using r t1(4) by (simp add: count_list_distinct)
    with t2(6)[of r] a have "sval (store t2) r = 2" by (simp add: sval_def)
    moreover from positiveD[OF t2(3), of r] r t2(4) obtain s where "support (store t2 ! r) = Some s" by auto
    ultimately have "support (store t2 ! r) = Some 2" by (simp add: sval_def)
    with a show ?thesis by simp
  qed
  have ch: "distinct (map fst (children (store t2 ! r))) \<and> children (store t2 ! r) = children (store t1 ! r)"
    if "r < length (store t2)" for r
    using wf_keysD[OF wf_treeD(4)[OF t2(2)] that] t2(5) by simp
  from t1(1) t2(1) t2(4) dbl ch show ?thesis by blast
qed

theorem C7_insert_twice_doubles_witness:
  "\<exists>t1 t2. add_transaction FPTree_init [5, 7] = Inr t1 \<and> add_transaction t1 [5, 7] = Inr t2 \<and>
      length (store t2) = 3 \<and> length (store t1) = 3 \<and> root t1 = 0 \<and>
      support (store t1 ! 2) = Some 1 \<and> support (store t2 ! 2) = Some 2 \<and>
      distinct (map fst (children (store t2 ! 1)))"
proof -
  from C7_insert_twice_doubles[of "[5, 7]"]
  obtain t1 t2 where t: "add_transaction FPTree_init [5, 7] = Inr t1" "add_transaction t1 [5, 7] = Inr t2"
    "length (store t2) = length (store t1)"
    and d: "\<And>r. r \<noteq> root t1 \<and> r < length (store t1) \<Longrightarrow>
           (\<exists>s. support (store t1 ! r) = Some s \<and> support (store t2 ! r) = Some (2 * s))"
    and c: "\<And>r. r < length (store t2) \<Longrightarrow> distinct (map fst (children (store t2 ! r)))"
    by blast
  have "map_sum id (\<lambda>t. (length (store t), root t, support (store t ! 2)))
          (add_transaction FPTree_init [5, 7]) = Inr (3, 0, Some 1)"
    by code_simp
  then have e: "length (store t1) = 3" "root t1 = 0" "support (store t1 ! 2) = Some 1"
    by (simp_all add: t(1))
  from d[of 2] e have "support (store t2 ! 2) = Some 2" by simp
  moreover from c[of 1] t(3) e have "distinct (map fst (children (store t2 ! 1)))" by simp
  ultimately show ?thesis using t e by simp
qed

section \<open>Termination of the search\<close>

text \<open>
  Claim C6 says that every recursive call of \<open>fp_search\<close> works on a conditional tree with
  strictly fewer distinct items. The conditional tree of an item still holds that item,
  in the last node of each path, so it can hold as many items as the tree it comes from.
  For the single transaction \<open>[1, 2]\<close> and \<open>epsilon = 1\<close>: item 2 has support 1 and is not
  in the empty suffix, so \<open>fp_search\<close> calls itself on \<open>project(tree.prefix_paths(2))\<close>, and
  that tree has the items 1 and 2, as many as the tree itself.
\<close>

theorem C6_same_number_of_items:
  "bindE (Some (START_TREE [[1, 2]])) (\<lambda>tree.
     bindE (nodes tree (Some 2)) (\<lambda>ns.
       bindE (bindE (prefix_paths tree (Some 2)) (project (store tree))) (\<lambda>proj_tree.
         Some (Inr (sum_support (store tree) ns, Some 2 \<in> set ([] :: item option list),
                    items tree, items proj_tree,
                    length (remdups (items proj_tree)) < length (remdups (items tree))))))) =
   Some (Inr (Inr 1, False, [Some 1, Some 2], [Some 1, Some 2], False))"
  by code_simp

text \<open>
  Claim C6 as amended. What ends the recursion is the test \<open>item not in suffix\<close>. For every
  list of transactions and every \<open>epsilon\<close>: building the tree and searching it returns a
  list of results, without an exception; a tree with no item yields nothing; and every call
  met during the search returns a list of results, and each of its recursive calls is on a
  conditional tree whose items are items of the caller's tree, with a suffix longer by one,
  such that strictly fewer items of the tree are outside the suffix than in the caller.
\<close>

theorem C6_fp_search_terminates:
  "(\<exists>tree res. START_TREE TRANSACTIONS = Inr tree \<and> fp_search tree epsilon [] = Some (Inr res)) \<and>
   (\<forall>tree suffix. items tree = [] \<longrightarrow> fp_search tree epsilon suffix = Some (Inr [])) \<and>
   (\<forall>tree suffix. searched TRANSACTIONS epsilon tree suffix \<longrightarrow>
      (\<exists>res. fp_search tree epsilon suffix = Some (Inr res)) \<and>
      (\<forall>proj_tree suffix'. recursive_call epsilon tree suffix proj_tree suffix' \<longrightarrow>
         searched TRANSACTIONS epsilon proj_tree suffix' \<and>
         set (items proj_tree) \<subseteq> set (items tree) \<and>
         card (set (items proj_tree) - set suffix') < card (set (items tree) - set suffix)))"
proof -
  have fin: "\<exists>res. fp_search tree epsilon suffix = Some (Inr res)" if "good tree" for tree suffix
    unfolding fp_search_def by (rule fp_search_loop_terminates[OF that]) simp
  from good_START_TREE[of TRANSACTIONS] obtain tree where t: "START_TREE TRANSACTIONS = Inr tree" "good tree"
    by blast
  from fin[OF t(2), of "[]"] t(1)
  have a: "\<exists>tree res. START_TREE TRANSACTIONS = Inr tree \<and> fp_search tree epsilon [] = Some (Inr res)"
    by blast
  have b: "\<forall>tree suffix. items tree = [] \<longrightarrow> fp_search tree epsilon suffix = Some (Inr [])"
    by (simp add: fp_search_no_items)
  have c: "(\<exists>res. fp_search tree epsilon suffix = Some (Inr res)) \<and>
      (\<forall>proj_tree suffix'. recursive_call epsilon tree suffix proj_tree suffix' \<longrightarrow>
         searched TRANSACTIONS epsilon proj_tree suffix' \<and>
         set (items proj_tree) \<subseteq> set (items tree) \<and>
         card (set (items proj_tree) - set suffix') < card (set (items tree) - set suffix))"
    if s: "searched TRANSACTIONS epsilon tree suffix" for tree suffix
  proof -
    note g = searched_good[OF s]
    have "searched TRANSACTIONS epsilon proj_tree suffix' \<and>
         set (items proj_tree) \<subseteq> set (items tree) \<and>
         card (set (items proj_tree) - set suffix') < card (set (items tree) - set suffix)"
      if r: "recursive_call epsilon tree suffix proj_tree suffix'" for proj_tree suffix'
      using recursive_call_good[OF g r] searched.rec[OF s r] by simp
    with fin[OF g] show ?thesis by blast
  qed
  from a b c show ?thesis by blast
qed

theorem C6_fp_search_terminates_witness:
  "\<exists>tree proj_tree res res'.
      START_TREE [[1, 2]] = Inr tree \<and> fp_search tree 1 [] = Some (Inr res) \<and>
      searched [[1, 2]] 1 tree [] \<and> recursive_call 1 tree [] proj_tree [Some 2] \<and>
      searched [[1, 2]] 1 proj_tree [Some 2] \<and>
      fp_search proj_tree 1 [Some 2] = Some (Inr res') \<and>
      set (items proj_tree) \<subseteq> set (items tree) \<and>
      card (set (items proj_tree) - set [Some 2]) < card (set (items tree) - set [])"
proof -
  note c = C6_fp_search_terminates[of "[[1, 2]]" 1]
  from c obtain tree res where t: "START_TREE [[1, 2]] = Inr tree" "fp_search tree 1 [] = Some (Inr res)"
    by blast
  have s: "searched [[1, 2]] 1 tree []" by (rule searched.top[OF t(1)])
  have "case START_TREE [[1, 2]] of Inl e \<Rightarrow> False
        | Inr tree \<Rightarrow> items tree = [Some 1, Some 2] \<and>
            (case nodes tree (Some 2) of
               Some (Inr ns) \<Rightarrow> sum_support (store tree) ns = Inr 1
             | _ \<Rightarrow> False) \<and>
            (case bindE (prefix_paths tree (Some 2)) (project (store tree)) of
               Some (Inr proj_tree) \<Rightarrow> True
             | _ \<Rightarrow> False)"
    by code_simp
  with t(1) obtain ns proj_tree where e: "items tree = [Some 1, Some 2]"
    "nodes tree (Some 2) = Some (Inr ns)" "sum_support (store tree) ns = Inr 1"
    "bindE (prefix_paths tree (Some 2)) (project (store tree)) = Some (Inr proj_tree)"
    by (auto split: sum.splits option.splits)
  have r: "recursive_call 1 tree [] proj_tree [Some 2]"
    unfolding recursive_call_def using e by auto
  from c s r have p: "searched [[1, 2]] 1 proj_tree [Some 2]"
    "set (items proj_tree) \<subseteq> set (items tree)"
    "card (set (items proj_tree) - set [Some 2]) < card (set (items tree) - set [])"
    by blast+
  from c p(1) obtain res' where "fp_search proj_tree 1 [Some 2] = Some (Inr res')" by blast
  with t s r p show ?thesis by blast
qed

end
